theory Spec2Isabelle
  imports
    Main
    "HOL-Library.AList"
    "HOL-Library.Product_Lexorder"
    "HOL-Library.Char_ord"
    "HOL-Library.List_Lexorder"
begin

section \<open>The graph engine of grafos.py\<close>

text \<open>
  The class \<open>Graph\<close> holds a flag and two Python dictionaries. A dictionary is modelled
  as an association list in insertion order: \<^const>\<open>map_of\<close> is the lookup,
  \<^const>\<open>AList.update\<close> is the assignment \<open>d[k] = v\<close> (it overwrites the entry of a
  key that is present and appends the entry of a new key), and
  \<^const>\<open>AList.map_entry\<close> is the in-place change of the value stored under a key.
  Vertex identifiers are any type with a linear order, since the priority queue of
  \<open>dijkstra\<close> compares tuples \<open>(distance, vertex)\<close>. Weights are Python integers.
\<close>

subsection \<open>Data model\<close>

record 'v graph =
  directed :: bool
  adjacency_list :: "('v \<times> 'v list) list"
  edge_weights :: "(('v \<times> 'v) \<times> int) list"

datatype error = KeyError | IndexError | ValueError

text \<open>\<open>Graph.__init__\<close>\<close>

definition Graph :: "bool \<Rightarrow> 'v graph" where
  "Graph d = \<lparr>directed = d, adjacency_list = [], edge_weights = []\<rparr>"

text \<open>The keys of the adjacency dictionary.\<close>

definition vertices :: "'v graph \<Rightarrow> 'v set" where
  "vertices g = fst ` set (adjacency_list g)"

subsection \<open>Mutation operations\<close>

definition add_vertex :: "'v graph \<Rightarrow> 'v \<Rightarrow> 'v graph" where
  "add_vertex g vertex =
     (if map_of (adjacency_list g) vertex = None
      then g\<lparr>adjacency_list := AList.update vertex [] (adjacency_list g)\<rparr>
      else g)"

text \<open>
  \<open>self.adjacency_list[k].append(x)\<close>. In \<open>add_edge\<close> the key has been created just
  before, so the lookup cannot miss (lemma \<open>add_edge_keys\<close> below).
\<close>

definition list_append :: "('v \<times> 'v list) list \<Rightarrow> 'v \<Rightarrow> 'v \<Rightarrow> ('v \<times> 'v list) list" where
  "list_append adj k x = AList.map_entry k (\<lambda>xs. xs @ [x]) adj"

definition add_edge :: "'v graph \<Rightarrow> 'v \<Rightarrow> 'v \<Rightarrow> int \<Rightarrow> 'v graph" where
  "add_edge g source target weight =
     (let g1 = (if map_of (adjacency_list g) source = None then add_vertex g source else g);
          g2 = (if map_of (adjacency_list g1) target = None then add_vertex g1 target else g1);
          g3 = g2\<lparr>adjacency_list := list_append (adjacency_list g2) source target,
                  edge_weights := AList.update (source, target) weight (edge_weights g2)\<rparr>
      in if \<not> directed g3
         then g3\<lparr>adjacency_list := list_append (adjacency_list g3) target source,
                 edge_weights := AList.update (target, source) weight (edge_weights g3)\<rparr>
         else g3)"

subsection \<open>Query operations\<close>

definition is_eulerian :: "'v graph \<Rightarrow> bool \<times> bool" where
  "is_eulerian g =
     (let odd_degree_vertices =
            sum_list (map (\<lambda>_. 1::nat)
              (filter (\<lambda>(vertex, adj). length adj mod 2 \<noteq> 0) (adjacency_list g)))
      in if odd_degree_vertices = 0 then (True, False)
         else if odd_degree_vertices = 2 then (False, True)
         else (False, False))"

definition get_order :: "'v graph \<Rightarrow> nat" where
  "get_order g = length (adjacency_list g)"

definition get_size :: "'v graph \<Rightarrow> nat" where
  "get_size g =
     sum_list (map (\<lambda>(vertex, edges). length edges) (adjacency_list g))
       div (if \<not> directed g then 2 else 1)"

definition get_adjacent_vertices :: "'v graph \<Rightarrow> 'v \<Rightarrow> 'v list" where
  "get_adjacent_vertices g vertex =
     (case map_of (adjacency_list g) vertex of None \<Rightarrow> [] | Some edges \<Rightarrow> edges)"

datatype degree = Degree nat | In_out_degree nat nat

definition get_degree :: "'v graph \<Rightarrow> 'v \<Rightarrow> degree" where
  "get_degree g vertex =
     (if directed g
      then (let out_degree = length (get_adjacent_vertices g vertex);
                in_degree = length (filter (\<lambda>(v, edges). vertex \<in> set edges) (adjacency_list g))
            in In_out_degree in_degree out_degree)
      else Degree (length (get_adjacent_vertices g vertex)))"

definition are_adjacent :: "'v graph \<Rightarrow> 'v \<Rightarrow> 'v \<Rightarrow> bool" where
  "are_adjacent g v1 v2 = (v2 \<in> set (get_adjacent_vertices g v1))"

subsection \<open>Dijkstra\<close>

text \<open>
  A distance is \<open>float('infinity')\<close> or an integer: the start has distance \<open>0\<close> and every
  other finite distance is a sum of \<open>0\<close> and integer weights.
\<close>

datatype distance = Finite int | Infinity

text \<open>The comparison \<open>distance < distances[neighbor]\<close> of an integer with a distance.\<close>

fun less_distance :: "int \<Rightarrow> distance \<Rightarrow> bool" where
  "less_distance d Infinity = True"
| "less_distance d (Finite e) = (d < e)"

text \<open>
  The locals of \<open>dijkstra\<close>. The list \<open>priority_queue\<close> is used only through
  \<open>heapq.heappush\<close> and \<open>heapq.heappop\<close>, which keep a binary heap of tuples and pop
  the least tuple in Python's lexicographic order; the model keeps the same tuples in
  ascending order, so that the least one is the head.
\<close>

record 'v locals =
  distances :: "('v \<times> distance) list"
  predecessors :: "('v \<times> 'v option) list"
  priority_queue :: "(int \<times> 'v) list"

definition heappush :: "(int \<times> 'v::linorder) list \<Rightarrow> int \<times> 'v \<Rightarrow> (int \<times> 'v) list" where
  "heappush q x = insort x q"

text \<open>\<open>self.edge_weights.get((u, v), 1)\<close>\<close>

definition edge_weight :: "'v graph \<Rightarrow> 'v \<Rightarrow> 'v \<Rightarrow> int" where
  "edge_weight g u v = (case map_of (edge_weights g) (u, v) of None \<Rightarrow> 1 | Some w \<Rightarrow> w)"

text \<open>The \<open>for neighbor in self.adjacency_list[current_vertex]\<close> loop.\<close>

fun relax :: "'v::linorder graph \<Rightarrow> int \<Rightarrow> 'v \<Rightarrow> 'v list \<Rightarrow> 'v locals \<Rightarrow> error + 'v locals" where
  "relax g current_distance current_vertex [] st = Inr st"
| "relax g current_distance current_vertex (neighbor # rest) st =
     (let weight = edge_weight g current_vertex neighbor;
          distance = current_distance + weight
      in case map_of (distances st) neighbor of
           None \<Rightarrow> Inl KeyError
         | Some dn \<Rightarrow>
             if less_distance distance dn
             then relax g current_distance current_vertex rest
                    \<lparr>distances = AList.update neighbor (Finite distance) (distances st),
                     predecessors = AList.update neighbor (Some current_vertex) (predecessors st),
                     priority_queue = heappush (priority_queue st) (distance, neighbor)\<rparr>
             else relax g current_distance current_vertex rest st)"

text \<open>
  The \<open>while priority_queue\<close> loop. It need not terminate (a cycle of negative weight
  is relaxed for ever), so the result is an option and \<open>None\<close> means that the loop
  does not return.
\<close>

partial_function (option) dijkstra_loop ::
  "'v::linorder graph \<Rightarrow> 'v locals \<Rightarrow> (error + 'v locals) option" where
  "dijkstra_loop g st =
     (case priority_queue st of
        [] \<Rightarrow> Some (Inr st)
      | (current_distance, current_vertex) # q \<Rightarrow>
          (case map_of (adjacency_list g) current_vertex of
             None \<Rightarrow> Some (Inl KeyError)
           | Some neighbors \<Rightarrow>
               (case relax g current_distance current_vertex neighbors
                       (st\<lparr>priority_queue := q\<rparr>) of
                  Inl e \<Rightarrow> Some (Inl e)
                | Inr st' \<Rightarrow> dijkstra_loop g st')))"

declare dijkstra_loop.simps [code]

definition dijkstra_init :: "'v graph \<Rightarrow> 'v \<Rightarrow> 'v locals" where
  "dijkstra_init g start_vertex =
     \<lparr>distances = AList.update start_vertex (Finite 0)
                    (map (\<lambda>(vertex, adj). (vertex, Infinity)) (adjacency_list g)),
      predecessors = map (\<lambda>(vertex, adj). (vertex, None)) (adjacency_list g),
      priority_queue = [(0, start_vertex)]\<rparr>"

definition dijkstra ::
  "'v::linorder graph \<Rightarrow> 'v \<Rightarrow> (error + ('v \<times> distance) list \<times> ('v \<times> 'v option) list) option" where
  "dijkstra g start_vertex =
     (case dijkstra_loop g (dijkstra_init g start_vertex) of
        None \<Rightarrow> None
      | Some (Inl e) \<Rightarrow> Some (Inl e)
      | Some (Inr st) \<Rightarrow> Some (Inr (distances st, predecessors st)))"

text \<open>
  The \<open>while predecessors[current_vertex] is not None\<close> loop of \<open>shortest_path\<close>;
  it does not return on a cyclic predecessor dictionary.
\<close>

partial_function (option) walk_back ::
  "('v \<times> 'v option) list \<Rightarrow> 'v list \<Rightarrow> 'v \<Rightarrow> (error + 'v list \<times> 'v) option" where
  "walk_back preds path current_vertex =
     (case map_of preds current_vertex of
        None \<Rightarrow> Some (Inl KeyError)
      | Some None \<Rightarrow> Some (Inr (path, current_vertex))
      | Some (Some p) \<Rightarrow> walk_back preds (current_vertex # path) p)"

declare walk_back.simps [code]

text \<open>The first component of the result: a number, or the string \<open>"No path exists"\<close>.\<close>

datatype cost = Cost int | Message string

definition shortest_path ::
  "'v::linorder graph \<Rightarrow> 'v \<Rightarrow> 'v \<Rightarrow> (error + cost \<times> 'v list) option" where
  "shortest_path g start end_vertex =
     (case dijkstra g start of
        None \<Rightarrow> None
      | Some (Inl e) \<Rightarrow> Some (Inl e)
      | Some (Inr (dists, preds)) \<Rightarrow>
          (case map_of dists end_vertex of
             None \<Rightarrow> Some (Inl KeyError)
           | Some Infinity \<Rightarrow> Some (Inr (Message ''No path exists'', []))
           | Some (Finite d) \<Rightarrow>
               (case walk_back preds [] end_vertex of
                  None \<Rightarrow> None
                | Some (Inl e) \<Rightarrow> Some (Inl e)
                | Some (Inr (path, current_vertex)) \<Rightarrow>
                    Some (Inr (Cost d, if path \<noteq> [] then current_vertex # path else path)))))"

subsection \<open>Sequences of mutations\<close>

datatype 'v operation = Add_vertex 'v | Add_edge 'v 'v int

fun apply_operation :: "'v graph \<Rightarrow> 'v operation \<Rightarrow> 'v graph" where
  "apply_operation g (Add_vertex v) = add_vertex g v"
| "apply_operation g (Add_edge s t w) = add_edge g s t w"

fun identifiers :: "'v operation \<Rightarrow> 'v set" where
  "identifiers (Add_vertex v) = {v}"
| "identifiers (Add_edge s t w) = {s, t}"

fun edge_calls :: "'v operation list \<Rightarrow> nat" where
  "edge_calls [] = 0"
| "edge_calls (Add_vertex v # ops) = edge_calls ops"
| "edge_calls (Add_edge s t w # ops) = Suc (edge_calls ops)"

text \<open>The sum of the lengths of all neighbour lists.\<close>

definition degree_sum :: "'v graph \<Rightarrow> nat" where
  "degree_sum g = (\<Sum>v \<in> vertices g. length (get_adjacent_vertices g v))"

text \<open>The entry of the weights dictionary under an ordered pair, if any.\<close>

definition weight_entry :: "'v graph \<Rightarrow> 'v \<Rightarrow> 'v \<Rightarrow> int option" where
  "weight_entry g u v = map_of (edge_weights g) (u, v)"

text \<open>The sum of the lengths of the neighbour lists stored in an adjacency dictionary.\<close>

definition total_length :: "('v \<times> 'v list) list \<Rightarrow> nat" where
  "total_length adj = sum_list (map (\<lambda>(vertex, edges). length edges) adj)"

text \<open>\<open>(a, b)\<close> is the ordered pair \<open>(s, t)\<close> or its reverse.\<close>

definition ends :: "'v \<Rightarrow> 'v \<Rightarrow> 'v \<Rightarrow> 'v \<Rightarrow> bool" where
  "ends s t a b \<longleftrightarrow> (a = s \<and> b = t) \<or> (a = t \<and> b = s)"

text \<open>
  Every adjacency entry has its reverse entry, and both ordered pairs carry the same
  recorded weight.
\<close>

definition paired :: "'v graph \<Rightarrow> bool" where
  "paired g \<longleftrightarrow>
     (\<forall>a b. are_adjacent g a b \<longrightarrow>
        are_adjacent g b a \<and> weight_entry g a b = weight_entry g b a \<and> weight_entry g a b \<noteq> None)"

text \<open>The number of vertices whose neighbour list has odd length.\<close>

definition odd_vertices :: "'v graph \<Rightarrow> nat" where
  "odd_vertices g = card {v \<in> vertices g. odd (length (get_adjacent_vertices g v))}"

subsection \<open>Paths and invariants of \<open>dijkstra\<close>\<close>

text \<open>
  The data-model invariant on neighbours: every identifier in a neighbour list is a key
  of the adjacency dictionary.
\<close>

definition closed :: "'v graph \<Rightarrow> bool" where
  "closed g \<longleftrightarrow> (\<forall>e \<in> set (adjacency_list g). \<forall>u \<in> set (snd e). u \<in> vertices g)"

definition nonnegative :: "'v graph \<Rightarrow> bool" where
  "nonnegative g \<longleftrightarrow> (\<forall>e \<in> set (edge_weights g). 0 \<le> snd e)"

text \<open>
  A path is a non-empty list of vertices in which each vertex is followed by one of its
  neighbours; its weight is the sum of the weights of its steps, a missing weight entry
  counting as \<open>1\<close>.
\<close>

fun is_path :: "'v graph \<Rightarrow> 'v list \<Rightarrow> bool" where
  "is_path g [] = False"
| "is_path g [v] = True"
| "is_path g (u # v # p) = (are_adjacent g u v \<and> is_path g (v # p))"

fun path_weight :: "'v graph \<Rightarrow> 'v list \<Rightarrow> int" where
  "path_weight g (u # v # p) = edge_weight g u v + path_weight g (v # p)"
| "path_weight g p = 0"

definition path_from_to :: "'v graph \<Rightarrow> 'v \<Rightarrow> 'v list \<Rightarrow> 'v \<Rightarrow> bool" where
  "path_from_to g s p v \<longleftrightarrow> is_path g p \<and> hd p = s \<and> last p = v"

definition has_path :: "'v graph \<Rightarrow> 'v \<Rightarrow> 'v \<Rightarrow> int \<Rightarrow> bool" where
  "has_path g s v d \<longleftrightarrow> (\<exists>p. path_from_to g s p v \<and> path_weight g p = d)"

text \<open>
  \<open>x\<close> is the least weight of a path from \<open>s\<close> to \<open>v\<close>, or \<open>Infinity\<close> when there is no
  path.
\<close>

definition is_shortest :: "'v graph \<Rightarrow> 'v \<Rightarrow> 'v \<Rightarrow> distance \<Rightarrow> bool" where
  "is_shortest g s v x \<longleftrightarrow>
     (case x of
        Infinity \<Rightarrow> (\<forall>p. \<not> path_from_to g s p v)
      | Finite d \<Rightarrow> has_path g s v d \<and> (\<forall>p. path_from_to g s p v \<longrightarrow> d \<le> path_weight g p))"

text \<open>One pass of the body of the inner loop, for a neighbour whose distance is \<open>dn\<close>.\<close>

definition step :: "'v::linorder graph \<Rightarrow> int \<Rightarrow> 'v \<Rightarrow> 'v \<Rightarrow> distance \<Rightarrow> 'v locals \<Rightarrow> 'v locals" where
  "step g cd cv u dn st =
     (if less_distance (cd + edge_weight g cv u) dn
      then \<lparr>distances = AList.update u (Finite (cd + edge_weight g cv u)) (distances st),
            predecessors = AList.update u (Some cv) (predecessors st),
            priority_queue = heappush (priority_queue st) (cd + edge_weight g cv u, u)\<rparr>
      else st)"

text \<open>The distance of \<open>u\<close> is finite and at most \<open>b\<close>.\<close>

definition le_bound :: "'v locals \<Rightarrow> 'v \<Rightarrow> int \<Rightarrow> bool" where
  "le_bound st u b \<longleftrightarrow> (\<exists>e. map_of (distances st) u = Some (Finite e) \<and> e \<le> b)"

text \<open>Every edge out of \<open>v\<close> has been relaxed with the distance \<open>d\<close> of \<open>v\<close>.\<close>

definition settled :: "'v graph \<Rightarrow> 'v locals \<Rightarrow> 'v \<Rightarrow> int \<Rightarrow> bool" where
  "settled g st v d \<longleftrightarrow>
     (\<forall>u \<in> set (get_adjacent_vertices g v). le_bound st u (d + edge_weight g v u))"

text \<open>
  The invariant of the inner loop while the entry \<open>(cd, cv)\<close> is processed and the
  neighbours in \<open>seen\<close> have been handled.
\<close>

definition relax_inv ::
  "'v graph \<Rightarrow> 'v \<Rightarrow> int \<Rightarrow> 'v \<Rightarrow> 'v list \<Rightarrow> 'v locals \<Rightarrow> bool" where
  "relax_inv g s cd cv seen st \<longleftrightarrow>
     fst ` set (distances st) = vertices g
     \<and> (\<forall>e \<in> set (priority_queue st). snd e \<in> vertices g \<and> has_path g s (snd e) (fst e))
     \<and> (\<forall>v d. map_of (distances st) v = Some (Finite d) \<longrightarrow> has_path g s v d)
     \<and> le_bound st s 0
     \<and> (\<forall>v d. map_of (distances st) v = Some (Finite d) \<longrightarrow>
           (d, v) \<in> set (priority_queue st) \<or> settled g st v d
           \<or> (v = cv \<and> d = cd \<and> (\<forall>u \<in> set seen. le_bound st u (cd + edge_weight g cv u))))"

text \<open>The invariant of the outer loop.\<close>

definition loop_inv :: "'v graph \<Rightarrow> 'v \<Rightarrow> 'v locals \<Rightarrow> bool" where
  "loop_inv g s st \<longleftrightarrow>
     fst ` set (distances st) = vertices g
     \<and> (\<forall>e \<in> set (priority_queue st). snd e \<in> vertices g \<and> has_path g s (snd e) (fst e))
     \<and> (\<forall>v d. map_of (distances st) v = Some (Finite d) \<longrightarrow> has_path g s v d)
     \<and> le_bound st s 0
     \<and> (\<forall>v d. map_of (distances st) v = Some (Finite d) \<longrightarrow>
           (d, v) \<in> set (priority_queue st) \<or> settled g st v d)"

text \<open>
  The measure of the outer loop on a graph without negative weights: the number of
  infinite distances, then the sum of the finite ones, then the length of the queue.
\<close>

definition infinite_count :: "'v locals \<Rightarrow> nat" where
  "infinite_count st =
     sum_list (map (\<lambda>e. case snd e of Finite d \<Rightarrow> 0 | Infinity \<Rightarrow> 1) (distances st))"

definition finite_total :: "'v locals \<Rightarrow> nat" where
  "finite_total st =
     sum_list (map (\<lambda>e. case snd e of Finite d \<Rightarrow> nat d | Infinity \<Rightarrow> 0) (distances st))"

definition progress :: "('v locals \<times> 'v locals) set" where
  "progress =
     inv_image (less_than <*lex*> less_than <*lex*> less_than)
       (\<lambda>st. (infinite_count st, finite_total st, length (priority_queue st)))"

definition nonneg_state :: "'v locals \<Rightarrow> bool" where
  "nonneg_state st \<longleftrightarrow>
     (\<forall>e \<in> set (distances st). \<forall>d. snd e = Finite d \<longrightarrow> 0 \<le> d)
     \<and> (\<forall>e \<in> set (priority_queue st). 0 \<le> fst e)"

text \<open>The start keeps distance \<open>0\<close> and no predecessor.\<close>

definition start_fixed :: "'v \<Rightarrow> 'v locals \<Rightarrow> bool" where
  "start_fixed s st \<longleftrightarrow>
     map_of (distances st) s = Some (Finite 0) \<and> map_of (predecessors st) s = Some None"

section \<open>Properties\<close>

subsection \<open>Vertices and edges after a sequence of mutations\<close>

lemma vertices_add_vertex: "vertices (add_vertex g v) = insert v (vertices g)"
  by (auto simp: add_vertex_def vertices_def dom_update map_of_eq_None_iff)

lemma vertices_list_append: "fst ` set (list_append adj k x) = fst ` set adj"
  by (simp add: list_append_def dom_map_entry)

lemma vertices_add_edge: "vertices (add_edge g s t w) = insert s (insert t (vertices g))"
  by (auto simp: add_edge_def Let_def vertices_def vertices_list_append add_vertex_def dom_update map_of_eq_None_iff)

lemma distinct_add_vertex:
  "distinct (map fst (adjacency_list g)) \<Longrightarrow> distinct (map fst (adjacency_list (add_vertex g v)))"
  by (simp add: add_vertex_def distinct_update)

lemma distinct_add_edge:
  "distinct (map fst (adjacency_list g)) \<Longrightarrow> distinct (map fst (adjacency_list (add_edge g s t w)))"
  by (simp add: add_edge_def Let_def list_append_def distinct_map_entry distinct_add_vertex)

lemma vertices_apply_operation:
  "vertices (apply_operation g x) = vertices g \<union> identifiers x"
  by (cases x) (auto simp: vertices_add_vertex vertices_add_edge)

lemma distinct_apply_operation:
  "distinct (map fst (adjacency_list g)) \<Longrightarrow> distinct (map fst (adjacency_list (apply_operation g x)))"
  by (cases x) (simp_all add: distinct_add_vertex distinct_add_edge)

lemma vertices_foldl:
  "vertices (foldl apply_operation g ops) = vertices g \<union> \<Union> (identifiers ` set ops)"
  by (induction ops arbitrary: g) (auto simp: vertices_apply_operation)

lemma distinct_foldl:
  "distinct (map fst (adjacency_list g)) \<Longrightarrow>
   distinct (map fst (adjacency_list (foldl apply_operation g ops)))"
  by (induction ops arbitrary: g) (simp_all add: distinct_apply_operation)

lemma get_order_card:
  "distinct (map fst (adjacency_list g)) \<Longrightarrow> get_order g = card (vertices g)"
  by (metis distinct_card get_order_def length_map list.set_map vertices_def)

text \<open>
  Claim C7. After any sequence of \<open>add_vertex\<close> and \<open>add_edge\<close> calls on an empty
  graph (directed or not), \<open>get_order\<close> is the number of distinct identifiers passed to
  these calls, as vertex, source or target.
\<close>

theorem order_counts_identifiers:
  "get_order (foldl apply_operation (Graph d) ops) = card (\<Union> (identifiers ` set ops))"
proof -
  have "distinct (map fst (adjacency_list (Graph d :: 'a graph)))" by (simp add: Graph_def)
  then have "distinct (map fst (adjacency_list (foldl apply_operation (Graph d) ops)))"
    by (rule distinct_foldl)
  then have "get_order (foldl apply_operation (Graph d) ops)
             = card (vertices (foldl apply_operation (Graph d) ops))"
    by (rule get_order_card)
  also have "vertices (foldl apply_operation (Graph d) ops) = \<Union> (identifiers ` set ops)"
    using vertices_foldl [of "Graph d" ops] by (simp add: vertices_def Graph_def)
  finally show ?thesis .
qed

lemma total_length_update_new:
  "map_of adj k = None \<Longrightarrow> total_length (AList.update k [] adj) = total_length adj"
  by (induction adj) (auto simp: total_length_def)

lemma total_length_list_append:
  "map_of adj k \<noteq> None \<Longrightarrow> total_length (list_append adj k x) = Suc (total_length adj)"
  by (induction adj) (auto simp: total_length_def list_append_def)

lemma map_of_list_append:
  "map_of (list_append adj k x) k' = (if k' = k then map_option (\<lambda>xs. xs @ [x]) (map_of adj k) else map_of adj k')"
  by (induction adj) (auto simp: list_append_def)

lemma total_length_add_vertex:
  "total_length (adjacency_list (add_vertex g v)) = total_length (adjacency_list g)"
  by (simp add: add_vertex_def total_length_update_new)

lemma map_of_add_vertex_self: "map_of (adjacency_list (add_vertex g v)) v \<noteq> None"
  by (auto simp: add_vertex_def update_conv')

lemma map_of_add_vertex_mono:
  "map_of (adjacency_list g) u \<noteq> None \<Longrightarrow> map_of (adjacency_list (add_vertex g v)) u \<noteq> None"
  by (auto simp: add_vertex_def update_conv')

lemma directed_add_vertex [simp]: "directed (add_vertex g v) = directed g"
  by (simp add: add_vertex_def)

lemma edge_weights_add_vertex [simp]: "edge_weights (add_vertex g v) = edge_weights g"
  by (simp add: add_vertex_def)

lemma add_vertex_if:
  "(if map_of (adjacency_list g) v = None then add_vertex g v else g) = add_vertex g v"
  by (simp add: add_vertex_def)

lemma directed_add_edge [simp]: "directed (add_edge g s t w) = directed g"
  by (simp add: add_edge_def add_vertex_if Let_def)

lemma adjacency_list_add_edge:
  "adjacency_list (add_edge g s t w) =
     (if directed g
      then list_append (adjacency_list (add_vertex (add_vertex g s) t)) s t
      else list_append (list_append (adjacency_list (add_vertex (add_vertex g s) t)) s t) t s)"
  by (simp add: add_edge_def add_vertex_if Let_def)

lemma edge_weights_add_edge:
  "edge_weights (add_edge g s t w) =
     (if directed g
      then AList.update (s, t) w (edge_weights g)
      else AList.update (t, s) w (AList.update (s, t) w (edge_weights g)))"
  by (simp add: add_edge_def add_vertex_if Let_def)

lemma add_edge_keys:
  "map_of (adjacency_list (add_vertex (add_vertex g s) t)) s \<noteq> None"
  "map_of (adjacency_list (add_vertex (add_vertex g s) t)) t \<noteq> None"
  "map_of (list_append (adjacency_list (add_vertex (add_vertex g s) t)) s t) t \<noteq> None"
proof -
  show 1: "map_of (adjacency_list (add_vertex (add_vertex g s) t)) s \<noteq> None"
    by (rule map_of_add_vertex_mono) (rule map_of_add_vertex_self)
  show 2: "map_of (adjacency_list (add_vertex (add_vertex g s) t)) t \<noteq> None"
    by (rule map_of_add_vertex_self)
  from 1 2 show "map_of (list_append (adjacency_list (add_vertex (add_vertex g s) t)) s t) t \<noteq> None"
    by (auto simp: map_of_list_append)
qed

lemma total_length_add_edge:
  "total_length (adjacency_list (add_edge g s t w))
   = total_length (adjacency_list g) + (if directed g then 1 else 2)"
  by (simp add: adjacency_list_add_edge total_length_list_append add_edge_keys
        total_length_add_vertex)

lemma total_length_apply_operation:
  "total_length (adjacency_list (foldl apply_operation g ops))
   = total_length (adjacency_list g) + (if directed g then 1 else 2) * edge_calls ops"
proof (induction ops arbitrary: g)
  case Nil
  show ?case by simp
next
  case (Cons x ops)
  show ?case
    by (cases x) (simp_all add: Cons.IH total_length_add_vertex total_length_add_edge)
qed

lemma degree_sum_total_length:
  assumes "distinct (map fst (adjacency_list g))"
  shows "degree_sum g = total_length (adjacency_list g)"
proof -
  have "total_length (adjacency_list g)
        = sum_list (map (\<lambda>v. length (get_adjacent_vertices g v)) (map fst (adjacency_list g)))"
    unfolding total_length_def map_map
    by (rule arg_cong [where f = sum_list], rule map_cong)
       (auto simp: get_adjacent_vertices_def assms)
  also have "\<dots> = degree_sum g"
    unfolding degree_sum_def vertices_def
    using assms by (metis list.set_map sum_list_distinct_conv_sum_set)
  finally show ?thesis by simp
qed


lemma directed_Graph [simp]: "directed (Graph d) = d"
  by (simp add: Graph_def)

lemma directed_apply_operation [simp]: "directed (apply_operation g x) = directed g"
  by (cases x) simp_all

lemma directed_foldl [simp]: "directed (foldl apply_operation g ops) = directed g"
proof (induction ops arbitrary: g)
  case Nil
  show ?case by simp
next
  case (Cons x ops)
  show ?case by (cases x) (simp_all add: Cons.IH)
qed

lemma get_size_total_length:
  "get_size g = (if directed g then total_length (adjacency_list g)
                 else total_length (adjacency_list g) div 2)"
  by (simp add: get_size_def total_length_def)

text \<open>
  Claim C6. \<open>get_size\<close> is half the sum of the lengths of the neighbour lists for an
  undirected graph and the sum itself for a directed one. After any sequence of calls on
  an empty undirected graph of which \<open>k\<close> are \<open>add_edge\<close> calls, the degrees sum to
  \<open>2k\<close> and \<open>get_size\<close> is \<open>k\<close>; on an empty directed graph \<open>get_size\<close> is \<open>k\<close> too.
\<close>

theorem size_counts_edges:
  "get_size g = (if directed g then total_length (adjacency_list g)
                 else total_length (adjacency_list g) div 2)
   \<and> degree_sum (foldl apply_operation (Graph False) ops) = 2 * edge_calls ops
   \<and> get_size (foldl apply_operation (Graph False) ops) = edge_calls ops
   \<and> get_size (foldl apply_operation (Graph True) ops) = edge_calls ops"
proof -
  have d: "distinct (map fst (adjacency_list (foldl apply_operation (Graph False) ops)))"
    by (rule distinct_foldl) (simp add: Graph_def)
  have t: "total_length (adjacency_list (foldl apply_operation (Graph b) ops))
           = (if b then 1 else 2) * edge_calls ops" for b
    by (simp add: total_length_apply_operation) (simp add: Graph_def total_length_def)
  show ?thesis
    using t [of True] t [of False] degree_sum_total_length [OF d]
    by (simp add: get_size_total_length)
qed

lemma get_adjacent_vertices_add_vertex [simp]:
  "get_adjacent_vertices (add_vertex g v) x = get_adjacent_vertices g x"
  by (simp add: get_adjacent_vertices_def add_vertex_def update_conv')

lemma get_adjacent_vertices_list_append:
  "map_of (adjacency_list g) k \<noteq> None \<Longrightarrow>
   get_adjacent_vertices (g\<lparr>adjacency_list := list_append (adjacency_list g) k x\<rparr>) y
   = get_adjacent_vertices g y @ (if y = k then [x] else [])"
  by (auto simp: get_adjacent_vertices_def map_of_list_append)

lemma get_adjacent_vertices_add_edge:
  "get_adjacent_vertices (add_edge g s t w) x
   = get_adjacent_vertices g x @ (if x = s then [t] else [])
       @ (if \<not> directed g \<and> x = t then [s] else [])"
proof -
  let ?A = "adjacency_list (add_vertex (add_vertex g s) t)"
  have A: "(case map_of ?A y of None \<Rightarrow> [] | Some e \<Rightarrow> e) = get_adjacent_vertices g y" for y
  proof -
    have "get_adjacent_vertices (add_vertex (add_vertex g s) t) y = get_adjacent_vertices g y"
      by simp
    then show ?thesis by (simp add: get_adjacent_vertices_def)
  qed
  have k: "map_of ?A s \<noteq> None" "map_of ?A t \<noteq> None" by (rule add_edge_keys)+
  have 1: "(case map_of (list_append ?A s t) y of None \<Rightarrow> [] | Some e \<Rightarrow> e)
           = get_adjacent_vertices g y @ (if y = s then [t] else [])" for y
    using k A [of y] by (auto simp: map_of_list_append)
  have 2: "(case map_of (list_append (list_append ?A s t) t s) y of None \<Rightarrow> [] | Some e \<Rightarrow> e)
           = get_adjacent_vertices g y @ (if y = s then [t] else []) @ (if y = t then [s] else [])" for y
    using k A [of y] by (auto simp: map_of_list_append)
  show ?thesis
  proof (cases "directed g")
    case True
    then have "get_adjacent_vertices (add_edge g s t w) x
               = (case map_of (list_append ?A s t) x of None \<Rightarrow> [] | Some e \<Rightarrow> e)"
      by (simp add: get_adjacent_vertices_def adjacency_list_add_edge)
    also note 1 [of x]
    finally show ?thesis using True by simp
  next
    case False
    then have "get_adjacent_vertices (add_edge g s t w) x
               = (case map_of (list_append (list_append ?A s t) t s) x of
                    None \<Rightarrow> [] | Some e \<Rightarrow> e)"
      by (simp add: get_adjacent_vertices_def adjacency_list_add_edge)
    also note 2 [of x]
    finally show ?thesis using False by simp
  qed
qed

subsection \<open>Undirected edges are kept as pairs\<close>

lemma ends_sym: "ends s t a b \<Longrightarrow> ends s t b a"
  unfolding ends_def by blast

lemma weight_entry_add_vertex [simp]: "weight_entry (add_vertex g x) a b = weight_entry g a b"
  by (simp add: weight_entry_def)

lemma map_of_update_pair:
  "map_of (AList.update (s, t) w al) (a, b)
   = (if a = s \<and> b = t then Some w else map_of al (a, b))"
  by (simp add: update_conv')

lemma if_merge: "(if P then x else if Q then x else y) = (if Q \<or> P then x else y)"
  by (cases P; cases Q; simp)

lemma mem_append_if:
  "b \<in> set (xs @ (if P then [t] else []) @ (if Q then [s] else []))
   \<longleftrightarrow> b \<in> set xs \<or> (P \<and> b = t) \<or> (Q \<and> b = s)"
  by (cases P; cases Q; simp; blast)

lemma weight_entry_add_edge_undirected:
  assumes "\<not> directed g"
  shows "weight_entry (add_edge g s t w) a b
         = (if ends s t a b then Some w else weight_entry g a b)"
  using assms
  by (simp only: weight_entry_def edge_weights_add_edge map_of_update_pair if_False if_merge
        ends_def)

lemma are_adjacent_add_vertex [simp]: "are_adjacent (add_vertex g v) a b = are_adjacent g a b"
  by (simp add: are_adjacent_def)

lemma are_adjacent_add_edge_undirected:
  assumes "\<not> directed g"
  shows "are_adjacent (add_edge g s t w) a b \<longleftrightarrow> are_adjacent g a b \<or> ends s t a b"
  using assms
  by (simp only: are_adjacent_def get_adjacent_vertices_add_edge mem_append_if ends_def
        simp_thms)

lemma paired_add_vertex: "paired g \<Longrightarrow> paired (add_vertex g v)"
  by (simp only: paired_def are_adjacent_add_vertex weight_entry_add_vertex)

lemma paired_add_edge:
  assumes p: "paired g" and u: "\<not> directed g"
  shows "paired (add_edge g s t w)"
  unfolding paired_def
proof (intro allI impI)
  fix a b
  let ?g = "add_edge g s t w"
  assume "are_adjacent ?g a b"
  then have c: "are_adjacent g a b \<or> ends s t a b"
    by (simp only: are_adjacent_add_edge_undirected [OF u])
  show "are_adjacent ?g b a \<and> weight_entry ?g a b = weight_entry ?g b a
        \<and> weight_entry ?g a b \<noteq> None"
  proof (cases "ends s t a b")
    case True
    then have "ends s t b a" by (rule ends_sym)
    with True show ?thesis
      by (simp only: are_adjacent_add_edge_undirected [OF u]
            weight_entry_add_edge_undirected [OF u]) simp
  next
    case False
    then have n: "\<not> ends s t b a" using ends_sym [of s t b a] by blast
    from False c have "are_adjacent g a b" by blast
    with p have "are_adjacent g b a \<and> weight_entry g a b = weight_entry g b a
                 \<and> weight_entry g a b \<noteq> None"
      unfolding paired_def by blast
    with False n show ?thesis
      by (simp only: are_adjacent_add_edge_undirected [OF u]
            weight_entry_add_edge_undirected [OF u] if_False simp_thms) metis
  qed
qed

lemma paired_apply_operation:
  "paired g \<Longrightarrow> \<not> directed g \<Longrightarrow> paired (apply_operation g x)"
  by (cases x) (simp_all add: paired_add_vertex paired_add_edge)

lemma paired_foldl:
  "paired g \<Longrightarrow> \<not> directed g \<Longrightarrow> paired (foldl apply_operation g ops)"
proof (induction ops arbitrary: g)
  case Nil
  then show ?case by simp
next
  case (Cons x ops)
  have "paired (foldl apply_operation (apply_operation g x) ops)"
    by (rule Cons.IH) (simp_all add: Cons.prems paired_apply_operation)
  then show ?case by simp
qed

lemma paired_Graph: "paired (Graph False)"
  by (simp add: paired_def are_adjacent_def get_adjacent_vertices_def Graph_def)

text \<open>
  Claim C5. On a graph created undirected and changed by any sequence of \<open>add_vertex\<close>
  and \<open>add_edge\<close> calls, \<open>add_edge u v w\<close> makes \<open>u\<close>, \<open>v\<close> adjacent in both directions
  and records \<open>w\<close> under \<open>(u, v)\<close> and \<open>(v, u)\<close>; and at every moment each adjacency
  entry has its reverse entry, with one and the same weight recorded for both pairs.
\<close>

theorem undirected_edges_paired:
  "are_adjacent (add_edge (foldl apply_operation (Graph False) ops) u v w) u v
   \<and> are_adjacent (add_edge (foldl apply_operation (Graph False) ops) u v w) v u
   \<and> weight_entry (add_edge (foldl apply_operation (Graph False) ops) u v w) u v = Some w
   \<and> weight_entry (add_edge (foldl apply_operation (Graph False) ops) u v w) v u = Some w
   \<and> (\<forall>a b. are_adjacent (foldl apply_operation (Graph False) ops) a b \<longrightarrow>
          are_adjacent (foldl apply_operation (Graph False) ops) b a
          \<and> weight_entry (foldl apply_operation (Graph False) ops) a b
              = weight_entry (foldl apply_operation (Graph False) ops) b a
          \<and> weight_entry (foldl apply_operation (Graph False) ops) a b \<noteq> None)"
proof -
  let ?g = "foldl apply_operation (Graph False) ops"
  have u: "\<not> directed ?g" by simp
  have e: "ends u v u v" "ends u v v u" by (simp_all add: ends_def)
  have p: "paired ?g"
    by (rule paired_foldl) (simp_all add: paired_Graph)
  have 1: "are_adjacent (add_edge ?g u v w) u v" "are_adjacent (add_edge ?g u v w) v u"
    using e by (simp_all only: are_adjacent_add_edge_undirected [OF u] simp_thms)
  have 2: "weight_entry (add_edge ?g u v w) u v = Some w"
          "weight_entry (add_edge ?g u v w) v u = Some w"
    using e by (simp_all only: weight_entry_add_edge_undirected [OF u] if_True)
  from 1 2 p [unfolded paired_def] show ?thesis by blast
qed

theorem undirected_edges_paired_witness:
  "are_adjacent (foldl apply_operation (Graph False) [Add_edge ''A'' ''B'' 4, Add_vertex ''C'']) ''A'' ''B''
   \<and> are_adjacent (foldl apply_operation (Graph False) [Add_edge ''A'' ''B'' 4, Add_vertex ''C'']) ''B'' ''A''
   \<and> weight_entry (foldl apply_operation (Graph False) [Add_edge ''A'' ''B'' 4, Add_vertex ''C'']) ''B'' ''A''
       = Some 4"
proof -
  let ?g = "foldl apply_operation (Graph False) [Add_edge ''A'' ''B'' 4, Add_vertex ''C'']"
  have h: "are_adjacent ?g ''A'' ''B''" by code_simp
  have w: "weight_entry ?g ''A'' ''B'' = Some 4" by code_simp
  from undirected_edges_paired [of "[Add_edge ''A'' ''B'' 4, Add_vertex ''C'']" "''A''" "''B''" 4] h
  have "are_adjacent ?g ''B'' ''A'' \<and> weight_entry ?g ''A'' ''B'' = weight_entry ?g ''B'' ''A''"
    by blast
  with h w show ?thesis by simp
qed

subsection \<open>Eulerian classification\<close>

lemma get_adjacent_vertices_entry:
  "distinct (map fst (adjacency_list g)) \<Longrightarrow> (v, a) \<in> set (adjacency_list g) \<Longrightarrow>
   get_adjacent_vertices g v = a"
  by (simp add: get_adjacent_vertices_def)

lemma odd_entries_card:
  assumes d: "distinct (map fst (adjacency_list g))"
  shows "length (filter (\<lambda>(vertex, adj). length adj mod 2 \<noteq> 0) (adjacency_list g))
         = odd_vertices g"
proof -
  let ?P = "\<lambda>v. odd (length (get_adjacent_vertices g v))"
  have "filter (\<lambda>(vertex, adj). length adj mod 2 \<noteq> 0) (adjacency_list g)
        = filter (\<lambda>p. ?P (fst p)) (adjacency_list g)"
    by (rule filter_cong) (auto simp: get_adjacent_vertices_entry [OF d] odd_iff_mod_2_eq_one)
  then have "length (filter (\<lambda>(vertex, adj). length adj mod 2 \<noteq> 0) (adjacency_list g))
             = length (filter (?P \<circ> fst) (adjacency_list g))"
    by (simp add: comp_def)
  also have "\<dots> = length (filter ?P (map fst (adjacency_list g)))"
    by (simp add: filter_map)
  also have "\<dots> = card (set (filter ?P (map fst (adjacency_list g))))"
  proof -
    have "distinct (filter ?P (map fst (adjacency_list g)))" using d by simp
    then show ?thesis by (simp only: distinct_card)
  qed
  also have "set (filter ?P (map fst (adjacency_list g))) = {v \<in> vertices g. ?P v}"
    by (auto simp: vertices_def)
  finally show ?thesis by (simp add: odd_vertices_def)
qed

lemma is_eulerian_count:
  "is_eulerian g =
     (let n = length (filter (\<lambda>(vertex, adj). length adj mod 2 \<noteq> 0) (adjacency_list g))
      in (n = 0, n = 2))"
  by (simp add: is_eulerian_def Let_def sum_list_triv)

text \<open>
  Claim C4. \<open>is_eulerian\<close> counts the vertices whose neighbour list has odd length
  (repeated neighbours counted, direction and connectivity ignored) and answers
  \<open>(True, False)\<close> for no such vertex, \<open>(False, True)\<close> for exactly two and
  \<open>(False, False)\<close> otherwise. A triangle is Eulerian, the path \<open>A - B - C\<close> is
  semi-Eulerian, and a star with three leaves is neither.
\<close>

theorem eulerian_classification:
  "(distinct (map fst (adjacency_list g)) \<longrightarrow>
      is_eulerian g = (odd_vertices g = 0, odd_vertices g = 2))
   \<and> is_eulerian (g\<lparr>directed := d\<rparr>) = is_eulerian g
   \<and> is_eulerian (foldl apply_operation (Graph False)
        [Add_edge ''A'' ''B'' 1, Add_edge ''B'' ''C'' 1, Add_edge ''C'' ''A'' 1]) = (True, False)
   \<and> is_eulerian (foldl apply_operation (Graph False)
        [Add_edge ''A'' ''B'' 1, Add_edge ''B'' ''C'' 1]) = (False, True)
   \<and> is_eulerian (foldl apply_operation (Graph False)
        [Add_edge ''O'' ''A'' 1, Add_edge ''O'' ''B'' 1, Add_edge ''O'' ''C'' 1]) = (False, False)"
proof -
  have 1: "distinct (map fst (adjacency_list g)) \<longrightarrow>
           is_eulerian g = (odd_vertices g = 0, odd_vertices g = 2)"
  proof
    assume d: "distinct (map fst (adjacency_list g))"
    show "is_eulerian g = (odd_vertices g = 0, odd_vertices g = 2)"
      by (simp only: is_eulerian_count Let_def odd_entries_card [OF d])
  qed
  have 2: "is_eulerian (g\<lparr>directed := d\<rparr>) = is_eulerian g"
    by (simp add: is_eulerian_def)
  have 3: "is_eulerian (foldl apply_operation (Graph False)
        [Add_edge ''A'' ''B'' 1, Add_edge ''B'' ''C'' 1, Add_edge ''C'' ''A'' 1]) = (True, False)"
    by code_simp
  have 4: "is_eulerian (foldl apply_operation (Graph False)
        [Add_edge ''A'' ''B'' 1, Add_edge ''B'' ''C'' 1]) = (False, True)"
    by code_simp
  have 5: "is_eulerian (foldl apply_operation (Graph False)
        [Add_edge ''O'' ''A'' 1, Add_edge ''O'' ''B'' 1, Add_edge ''O'' ''C'' 1]) = (False, False)"
    by code_simp
  from 1 2 3 4 5 show ?thesis by blast
qed

theorem eulerian_classification_witness:
  "distinct (map fst (adjacency_list (add_edge (Graph False) ''A'' ''B'' 1)))
   \<and> is_eulerian (add_edge (Graph False) ''A'' ''B'' 1)
       = (odd_vertices (add_edge (Graph False) ''A'' ''B'' 1) = 0,
          odd_vertices (add_edge (Graph False) ''A'' ''B'' 1) = 2)
   \<and> is_eulerian (add_edge (Graph False) ''A'' ''B'' 1) = (False, True)"
proof -
  have h: "distinct (map fst (adjacency_list (add_edge (Graph False) ''A'' ''B'' (1::int))))"
    by code_simp
  have e: "is_eulerian (add_edge (Graph False) ''A'' ''B'' 1) = (False, True)"
    by code_simp
  from eulerian_classification [of "add_edge (Graph False) ''A'' ''B'' 1" False] h e
  show ?thesis by blast
qed

subsection \<open>The loops of \<open>dijkstra\<close>\<close>

lemma relax_Cons:
  "relax g cd cv (u # rest) st =
     (case map_of (distances st) u of
        None \<Rightarrow> Inl KeyError
      | Some dn \<Rightarrow> relax g cd cv rest (step g cd cv u dn st))"
  by (simp add: step_def Let_def split: option.split)

lemma relax_rule:
  assumes "relax g cd cv nbrs st = Inr st'"
    and "P seen st"
    and "set nbrs \<subseteq> A"
    and "\<And>seen u st dn. P seen st \<Longrightarrow> map_of (distances st) u = Some dn \<Longrightarrow> u \<in> A
           \<Longrightarrow> P (seen @ [u]) (step g cd cv u dn st)"
  shows "P (seen @ nbrs) st'"
  using assms(1-3)
proof (induction nbrs arbitrary: st seen)
  case Nil
  then show ?case by simp
next
  case (Cons u rest)
  from Cons.prems(1) obtain dn where dn: "map_of (distances st) u = Some dn"
    and r: "relax g cd cv rest (step g cd cv u dn st) = Inr st'"
    by (auto simp: relax_Cons simp del: relax.simps split: option.splits)
  have "P (seen @ [u]) (step g cd cv u dn st)"
    using Cons.prems(2) dn Cons.prems(3) by (intro assms(4)) auto
  from Cons.IH [OF r this] Cons.prems(3) show ?case by simp
qed

lemma step_keys:
  "map_of (distances st) u = Some dn \<Longrightarrow>
   fst ` set (distances (step g cd cv u dn st)) = fst ` set (distances st)"
  by (auto simp: step_def dom_update dest: map_of_SomeD intro: rev_image_eqI)

lemma relax_total:
  "set nbrs \<subseteq> fst ` set (distances st) \<Longrightarrow> \<exists>st'. relax g cd cv nbrs st = Inr st'"
proof (induction nbrs arbitrary: st)
  case Nil
  show ?case by simp
next
  case (Cons u rest)
  then have "u \<in> fst ` set (distances st)" by simp
  then obtain dn where dn: "map_of (distances st) u = Some dn"
    by (metis map_of_eq_None_iff not_None_eq)
  have "set rest \<subseteq> fst ` set (distances (step g cd cv u dn st))"
    using Cons.prems by (simp add: step_keys [OF dn])
  from Cons.IH [OF this] show ?case by (simp add: relax_Cons dn del: relax.simps)
qed

lemma loop_partial:
  assumes "dijkstra_loop g st = Some (Inr st')"
    and "J st"
    and "\<And>st cd cv q nbrs st1. J st \<Longrightarrow> priority_queue st = (cd, cv) # q \<Longrightarrow>
           map_of (adjacency_list g) cv = Some nbrs \<Longrightarrow>
           relax g cd cv nbrs (st\<lparr>priority_queue := q\<rparr>) = Inr st1 \<Longrightarrow> J st1"
  shows "J st' \<and> priority_queue st' = []"
proof -
  define P where "P = (\<lambda>g' st (r :: error + 'a locals). g' = g \<longrightarrow>
    (\<forall>st'. r = Inr st' \<longrightarrow> J st \<longrightarrow> J st' \<and> priority_queue st' = []))"
  have "P g st (Inr st')"
  proof (rule dijkstra_loop.raw_induct [OF _ assms(1)])
    fix loop g0 st0 and r0 :: "error + 'a locals"
    assume IH0: "\<And>a b y. loop a b = Some y \<Longrightarrow> P a b y"
      and eq: "(case priority_queue st0 of
                  [] \<Rightarrow> Some (Inr st0)
                | (current_distance, current_vertex) # q \<Rightarrow>
                    (case map_of (adjacency_list g0) current_vertex of
                       None \<Rightarrow> Some (Inl KeyError)
                     | Some neighbors \<Rightarrow>
                         (case relax g0 current_distance current_vertex neighbors
                                 (st0\<lparr>priority_queue := q\<rparr>) of
                            Inl e \<Rightarrow> Some (Inl e)
                          | Inr st' \<Rightarrow> loop g0 st'))) = Some r0"
    note IH = IH0 [unfolded P_def]
    show "P g0 st0 r0"
      unfolding P_def
    proof (intro impI allI)
    fix st2
    assume g0: "g0 = g" and r0: "r0 = Inr st2" and j: "J st0"
    show "J st2 \<and> priority_queue st2 = []"
    proof (cases "priority_queue st0")
      case Nil
      with eq r0 j show ?thesis by simp
    next
      case (Cons e q)
      obtain cd cv where e: "e = (cd, cv)" by (cases e)
      from eq Cons e r0 obtain nbrs where n: "map_of (adjacency_list g0) cv = Some nbrs"
        by (cases "map_of (adjacency_list g0) cv") auto
      from eq Cons e r0 n obtain st1 where
        r: "relax g0 cd cv nbrs (st0\<lparr>priority_queue := q\<rparr>) = Inr st1"
        by (cases "relax g0 cd cv nbrs (st0\<lparr>priority_queue := q\<rparr>)") auto
      from eq Cons e n r have l: "loop g0 st1 = Some r0" by simp
      have "J st1" using assms(3) [OF j Cons [unfolded e]] n r g0 by blast
      with IH [OF l] g0 r0 show ?thesis by blast
    qed
    qed
  qed
  then show ?thesis using assms(2) unfolding P_def by blast
qed

lemma loop_total:
  assumes "wf R"
    and "J st"
    and "\<And>st cd cv q. J st \<Longrightarrow> priority_queue st = (cd, cv) # q \<Longrightarrow>
           \<exists>nbrs st1. map_of (adjacency_list g) cv = Some nbrs
             \<and> relax g cd cv nbrs (st\<lparr>priority_queue := q\<rparr>) = Inr st1
             \<and> J st1 \<and> (st1, st) \<in> R"
  shows "\<exists>st'. dijkstra_loop g st = Some (Inr st') \<and> J st' \<and> priority_queue st' = []"
  using assms(1,2)
proof (induction st rule: wf_induct_rule)
  case (less st)
  show ?case
  proof (cases "priority_queue st")
    case Nil
    with less.prems show ?thesis by (subst dijkstra_loop.simps) simp
  next
    case (Cons e q)
    obtain cd cv where e: "e = (cd, cv)" by (cases e)
    from assms(3) [OF less.prems Cons [unfolded e]]
    obtain nbrs st1 where n: "map_of (adjacency_list g) cv = Some nbrs"
      and r: "relax g cd cv nbrs (st\<lparr>priority_queue := q\<rparr>) = Inr st1"
      and j: "J st1" and m: "(st1, st) \<in> R" by blast
    from less.IH [OF m j] obtain st' where
      "dijkstra_loop g st1 = Some (Inr st')" "J st'" "priority_queue st' = []" by blast
    then show ?thesis
      by (subst dijkstra_loop.simps) (simp add: Cons e n r)
  qed
qed

subsection \<open>Paths\<close>

lemma is_path_nonempty: "is_path g p \<Longrightarrow> p \<noteq> []"
  by (cases p) simp_all

lemma is_path_snoc:
  "p \<noteq> [] \<Longrightarrow> is_path g (p @ [u]) = (is_path g p \<and> are_adjacent g (last p) u)"
  by (induction g p rule: is_path.induct) auto

lemma path_weight_snoc:
  "p \<noteq> [] \<Longrightarrow> path_weight g (p @ [u]) = path_weight g p + edge_weight g (last p) u"
  by (induction g p rule: path_weight.induct) auto

lemma has_path_refl: "has_path g s s 0"
  unfolding has_path_def path_from_to_def
  by (rule exI [of _ "[s]"]) simp

lemma has_path_snoc:
  assumes "has_path g s v d" "are_adjacent g v u"
  shows "has_path g s u (d + edge_weight g v u)"
proof -
  from assms(1) obtain p where p: "is_path g p" "hd p = s" "last p = v" "path_weight g p = d"
    unfolding has_path_def path_from_to_def by blast
  then have ne: "p \<noteq> []" by (simp add: is_path_nonempty)
  have "path_from_to g s (p @ [u]) u \<and> path_weight g (p @ [u]) = d + edge_weight g v u"
    using p ne assms(2)
    by (simp add: path_from_to_def is_path_snoc path_weight_snoc)
  then show ?thesis unfolding has_path_def by blast
qed

subsection \<open>One relaxation\<close>

lemma step_map_of:
  "map_of (distances (step g cd cv u dn st)) =
     (if less_distance (cd + edge_weight g cv u) dn
      then (map_of (distances st))(u \<mapsto> Finite (cd + edge_weight g cv u))
      else map_of (distances st))"
  by (simp add: step_def update_conv')

lemma step_queue:
  "set (priority_queue (step g cd cv u dn st)) =
     (if less_distance (cd + edge_weight g cv u) dn
      then insert (cd + edge_weight g cv u, u) (set (priority_queue st))
      else set (priority_queue st))"
  by (simp add: step_def heappush_def set_insort_key)

lemma less_distance_Finite:
  "less_distance c (Finite e) \<Longrightarrow> e \<le> b \<Longrightarrow> c \<le> b"
  by simp

lemma not_less_distance: "\<not> less_distance c dn \<Longrightarrow> \<exists>e. dn = Finite e \<and> e \<le> c"
  by (cases dn) simp_all

lemma le_bound_step:
  assumes "map_of (distances st) u = Some dn" "le_bound st x b"
  shows "le_bound (step g cd cv u dn st) x b"
proof (cases "less_distance (cd + edge_weight g cv u) dn \<and> x = u")
  case True
  from assms(2) obtain e where e: "map_of (distances st) x = Some (Finite e)" "e \<le> b"
    unfolding le_bound_def by blast
  with True assms(1) have "dn = Finite e" by simp
  with True e(2) have "cd + edge_weight g cv u \<le> b" by simp
  with True show ?thesis by (simp add: le_bound_def step_map_of)
next
  case False
  with assms(2) show ?thesis by (auto simp: le_bound_def step_map_of)
qed

lemma le_bound_step_self:
  assumes "map_of (distances st) u = Some dn"
  shows "le_bound (step g cd cv u dn st) u (cd + edge_weight g cv u)"
proof (cases "less_distance (cd + edge_weight g cv u) dn")
  case True
  then show ?thesis by (simp add: le_bound_def step_map_of)
next
  case False
  with not_less_distance [OF False] assms show ?thesis
    by (auto simp: le_bound_def step_map_of)
qed

lemma settled_step:
  "map_of (distances st) u = Some dn \<Longrightarrow> settled g st v d \<Longrightarrow>
   settled g (step g cd cv u dn st) v d"
  unfolding settled_def by (blast intro: le_bound_step)

lemma le_bound_mono: "le_bound st u b \<Longrightarrow> b \<le> c \<Longrightarrow> le_bound st u c"
  unfolding le_bound_def by force

lemma relax_inv_step:
  assumes inv: "relax_inv g s cd cv seen st"
    and dn: "map_of (distances st) u = Some dn"
    and adj: "are_adjacent g cv u"
    and path: "has_path g s cv cd"
  shows "relax_inv g s cd cv (seen @ [u]) (step g cd cv u dn st)"
proof -
  let ?c = "cd + edge_weight g cv u"
  let ?st = "step g cd cv u dn st"
  from inv have keys: "fst ` set (distances st) = vertices g"
    and queue: "\<forall>e \<in> set (priority_queue st). snd e \<in> vertices g \<and> has_path g s (snd e) (fst e)"
    and sound: "\<forall>v d. map_of (distances st) v = Some (Finite d) \<longrightarrow> has_path g s v d"
    and start: "le_bound st s 0"
    and rel: "\<forall>v d. map_of (distances st) v = Some (Finite d) \<longrightarrow>
           (d, v) \<in> set (priority_queue st) \<or> settled g st v d
           \<or> (v = cv \<and> d = cd \<and> (\<forall>u \<in> set seen. le_bound st u (cd + edge_weight g cv u)))"
    unfolding relax_inv_def by blast+
  have u: "u \<in> vertices g"
    using dn keys by (metis map_of_SomeD fst_conv image_eqI)
  have pc: "has_path g s u ?c" using path adj by (rule has_path_snoc)
  have 1: "fst ` set (distances ?st) = vertices g"
    using keys by (simp add: step_keys [OF dn])
  have 2: "\<forall>e \<in> set (priority_queue ?st). snd e \<in> vertices g \<and> has_path g s (snd e) (fst e)"
    using queue u pc by (auto simp: step_queue)
  have 3: "\<forall>v d. map_of (distances ?st) v = Some (Finite d) \<longrightarrow> has_path g s v d"
    using sound pc by (auto simp: step_map_of split: if_splits)
  have 4: "le_bound ?st s 0" using dn start by (rule le_bound_step)
  have 5: "(d, v) \<in> set (priority_queue ?st) \<or> settled g ?st v d
           \<or> (v = cv \<and> d = cd \<and> (\<forall>x \<in> set (seen @ [u]). le_bound ?st x (cd + edge_weight g cv x)))"
    if vd: "map_of (distances ?st) v = Some (Finite d)" for v d
  proof (cases "less_distance ?c dn \<and> v = u")
    case True
    with vd have "d = ?c" by (simp add: step_map_of)
    with True show ?thesis by (simp add: step_queue)
  next
    case False
    with vd have old: "map_of (distances st) v = Some (Finite d)"
      by (auto simp: step_map_of split: if_splits)
    from rel old consider
      (q) "(d, v) \<in> set (priority_queue st)"
      | (s) "settled g st v d"
      | (c) "v = cv" "d = cd" "\<forall>x \<in> set seen. le_bound st x (cd + edge_weight g cv x)"
      by blast
    then show ?thesis
    proof cases
      case q
      then show ?thesis by (simp add: step_queue)
    next
      case s
      then show ?thesis using settled_step [OF dn] by blast
    next
      case c
      have "\<forall>x \<in> set (seen @ [u]). le_bound ?st x (cd + edge_weight g cv x)"
        using c(3) le_bound_step [OF dn] le_bound_step_self [OF dn] by auto
      with c(1,2) show ?thesis by blast
    qed
  qed
  from 1 2 3 4 5 show ?thesis unfolding relax_inv_def by blast
qed

lemma loop_inv_step:
  assumes inv: "loop_inv g s st"
    and q: "priority_queue st = (cd, cv) # q"
    and n: "map_of (adjacency_list g) cv = Some nbrs"
    and r: "relax g cd cv nbrs (st\<lparr>priority_queue := q\<rparr>) = Inr st1"
  shows "loop_inv g s st1"
proof -
  have path: "has_path g s cv cd"
    using inv q unfolding loop_inv_def by auto
  have adj: "\<And>u. u \<in> set nbrs \<Longrightarrow> are_adjacent g cv u"
    using n by (simp add: are_adjacent_def get_adjacent_vertices_def)
  have 0: "relax_inv g s cd cv [] (st\<lparr>priority_queue := q\<rparr>)"
  proof -
    let ?st = "st\<lparr>priority_queue := q\<rparr>"
    have d: "distances ?st = distances st" by simp
    have s: "settled g ?st v d = settled g st v d" for v d
      by (simp add: settled_def le_bound_def)
    have 1: "fst ` set (distances ?st) = vertices g"
      using inv by (simp add: loop_inv_def)
    have 2: "\<forall>e \<in> set (priority_queue ?st). snd e \<in> vertices g \<and> has_path g s (snd e) (fst e)"
      using inv q by (simp add: loop_inv_def)
    have 3: "\<forall>v d. map_of (distances ?st) v = Some (Finite d) \<longrightarrow> has_path g s v d"
      using inv by (simp add: loop_inv_def)
    have 4: "le_bound ?st s 0"
      using inv by (simp add: loop_inv_def le_bound_def)
    have 5: "(d, v) \<in> set (priority_queue ?st) \<or> settled g ?st v d
             \<or> (v = cv \<and> d = cd \<and> (\<forall>u \<in> set []. le_bound ?st u (cd + edge_weight g cv u)))"
      if "map_of (distances ?st) v = Some (Finite d)" for v d
    proof -
      from that inv have "(d, v) \<in> set (priority_queue st) \<or> settled g st v d"
        unfolding loop_inv_def d by blast
      then show ?thesis unfolding s q by auto
    qed
    from 1 2 3 4 5 show ?thesis unfolding relax_inv_def by blast
  qed
  have "relax_inv g s cd cv ([] @ nbrs) st1"
  proof (rule relax_rule [where P = "relax_inv g s cd cv" and A = "set nbrs", OF r 0])
    show "set nbrs \<subseteq> set nbrs" by simp
  next
    fix seen u st dn
    assume "relax_inv g s cd cv seen st" "map_of (distances st) u = Some dn" "u \<in> set nbrs"
    then show "relax_inv g s cd cv (seen @ [u]) (step g cd cv u dn st)"
      using adj path by (intro relax_inv_step) auto
  qed
  then have "relax_inv g s cd cv (get_adjacent_vertices g cv) st1"
    using n by (simp add: get_adjacent_vertices_def)
  then show ?thesis
    unfolding relax_inv_def loop_inv_def settled_def by blast
qed

lemma map_of_all_infinity:
  "map_of (map (\<lambda>(vertex, adj). (vertex, Infinity)) al) v = Some x \<Longrightarrow> x = Infinity"
  by (induction al) (auto split: if_splits)

lemma map_fst_all_infinity:
  "map fst (map (\<lambda>(vertex, adj). (vertex, Infinity)) al) = map fst al"
  by (induction al) auto

lemma distances_init:
  "map_of (distances (dijkstra_init g s)) =
     (map_of (map (\<lambda>(vertex, adj). (vertex, Infinity)) (adjacency_list g)))(s \<mapsto> Finite 0)"
  by (simp add: dijkstra_init_def update_conv')

lemma distances_init_finite:
  assumes "map_of (distances (dijkstra_init g s)) v = Some (Finite d)"
  shows "v = s \<and> d = 0"
proof (cases "v = s")
  case True
  with assms show ?thesis by (simp add: distances_init)
next
  case False
  with assms have
    "map_of (map (\<lambda>(vertex, adj). (vertex, Infinity)) (adjacency_list g)) v = Some (Finite d)"
    by (simp add: distances_init)
  from map_of_all_infinity [OF this] show ?thesis by simp
qed

lemma keys_init:
  "fst ` set (distances (dijkstra_init g s)) = insert s (vertices g)"
proof -
  have "fst ` set (map (\<lambda>(vertex, adj). (vertex, Infinity)) (adjacency_list g))
        = set (map fst (map (\<lambda>(vertex, adj). (vertex, Infinity)) (adjacency_list g)))"
    by (simp only: set_map)
  also have "\<dots> = vertices g"
    by (simp only: map_fst_all_infinity vertices_def set_map)
  finally show ?thesis
    by (simp add: dijkstra_init_def dom_update)
qed

lemma queue_init: "priority_queue (dijkstra_init g s) = [(0, s)]"
  by (simp add: dijkstra_init_def)

lemma loop_inv_init:
  assumes "s \<in> vertices g"
  shows "loop_inv g s (dijkstra_init g s)"
proof -
  let ?st = "dijkstra_init g s"
  note m = distances_init_finite
  have 1: "fst ` set (distances ?st) = vertices g"
    using assms by (simp add: keys_init insert_absorb)
  have 2: "\<forall>e \<in> set (priority_queue ?st). snd e \<in> vertices g \<and> has_path g s (snd e) (fst e)"
    using assms by (simp add: queue_init has_path_refl)
  have 3: "\<forall>v d. map_of (distances ?st) v = Some (Finite d) \<longrightarrow> has_path g s v d"
    using m [of g s] has_path_refl [of g s] by blast
  have 4: "le_bound ?st s 0"
    by (simp add: le_bound_def distances_init)
  have 5: "\<forall>v d. map_of (distances ?st) v = Some (Finite d) \<longrightarrow>
             (d, v) \<in> set (priority_queue ?st) \<or> settled g ?st v d"
  proof (intro allI impI)
    fix v d assume "map_of (distances ?st) v = Some (Finite d)"
    from m [OF this] show "(d, v) \<in> set (priority_queue ?st) \<or> settled g ?st v d"
      by (simp add: queue_init)
  qed
  from 1 2 3 4 5 show ?thesis unfolding loop_inv_def by blast
qed

lemma loop_inv_lower_bound:
  assumes inv: "loop_inv g s st" and e: "priority_queue st = []"
  shows "path_from_to g s p v \<Longrightarrow> le_bound st v (path_weight g p)"
proof (induction p arbitrary: v rule: rev_induct)
  case Nil
  then show ?case by (simp add: path_from_to_def)
next
  case (snoc u q)
  show ?case
  proof (cases "q = []")
    case True
    with snoc.prems have "v = s" by (auto simp: path_from_to_def)
    with True inv show ?thesis by (simp add: loop_inv_def)
  next
    case False
    with snoc.prems have q: "path_from_to g s q (last q)" and a: "are_adjacent g (last q) u"
      and v: "v = u"
      by (auto simp: path_from_to_def is_path_snoc)
    from snoc.IH [OF q] obtain e where
      e1: "map_of (distances st) (last q) = Some (Finite e)" and e2: "e \<le> path_weight g q"
      unfolding le_bound_def by blast
    from inv e e1 have "settled g st (last q) e" unfolding loop_inv_def by auto
    with a have "le_bound st u (e + edge_weight g (last q) u)"
      unfolding settled_def are_adjacent_def by blast
    then show ?thesis
      using e2 v False by (auto simp: path_weight_snoc intro: le_bound_mono)
  qed
qed

lemma loop_inv_final:
  assumes inv: "loop_inv g s st" and e: "priority_queue st = []" and v: "v \<in> vertices g"
  shows "\<exists>x. map_of (distances st) v = Some x \<and> is_shortest g s v x"
proof -
  from inv v have "v \<in> fst ` set (distances st)" by (simp add: loop_inv_def)
  then obtain x where x: "map_of (distances st) v = Some x"
    by (metis map_of_eq_None_iff not_None_eq)
  have "is_shortest g s v x"
  proof (cases x)
    case (Finite d)
    with x inv have "has_path g s v d" by (simp add: loop_inv_def)
    moreover have "d \<le> path_weight g p" if "path_from_to g s p v" for p
      using loop_inv_lower_bound [OF inv e that] x Finite by (simp add: le_bound_def)
    ultimately show ?thesis using Finite by (simp add: is_shortest_def)
  next
    case Infinity
    have "\<not> path_from_to g s p v" for p
      using loop_inv_lower_bound [OF inv e, of p v] x Infinity by (auto simp: le_bound_def)
    with Infinity show ?thesis by (simp add: is_shortest_def)
  qed
  with x show ?thesis by blast
qed

subsection \<open>Termination without negative weights\<close>

lemma wf_progress: "wf progress"
  unfolding progress_def by (intro wf_inv_image wf_lex_prod wf_less_than)

lemma set_update_subset:
  "set (AList.update k v al) \<subseteq> insert (k, v) (set al)"
  by (induction al) auto

lemma sum_list_update:
  fixes f :: "'k \<times> 'a \<Rightarrow> nat"
  shows "map_of al k = Some old \<Longrightarrow>
    sum_list (map f (AList.update k new al)) + f (k, old) = sum_list (map f al) + f (k, new)"
proof (induction al)
  case Nil
  then show ?case by simp
next
  case (Cons a al)
  show ?case
  proof (cases "fst a = k")
    case True
    with Cons.prems have "a = (k, old)" by (cases a) simp
    then show ?thesis by simp
  next
    case False
    with Cons.prems have "map_of al k = Some old" by (cases a) simp
    from Cons.IH [OF this] False show ?thesis by simp
  qed
qed

lemma edge_weight_nonneg: "nonnegative g \<Longrightarrow> 0 \<le> edge_weight g u v"
proof (cases "map_of (edge_weights g) (u, v)")
  case None
  then show ?thesis by (simp add: edge_weight_def)
next
  case (Some w)
  assume "nonnegative g"
  moreover from Some have "((u, v), w) \<in> set (edge_weights g)" by (rule map_of_SomeD)
  ultimately have "0 \<le> w" unfolding nonnegative_def by force
  with Some show ?thesis by (simp add: edge_weight_def)
qed

lemma step_unchanged:
  "\<not> less_distance (cd + edge_weight g cv u) dn \<Longrightarrow> step g cd cv u dn st = st"
  by (simp add: step_def)

lemma step_distances:
  "less_distance (cd + edge_weight g cv u) dn \<Longrightarrow>
   distances (step g cd cv u dn st)
     = AList.update u (Finite (cd + edge_weight g cv u)) (distances st)"
  by (simp add: step_def)

lemma step_decreases:
  assumes dn: "map_of (distances st) u = Some dn"
    and less: "less_distance (cd + edge_weight g cv u) dn"
    and c: "0 \<le> cd + edge_weight g cv u"
  shows "((infinite_count (step g cd cv u dn st), finite_total (step g cd cv u dn st)),
          (infinite_count st, finite_total st)) \<in> less_than <*lex*> less_than"
proof (cases dn)
  case Infinity
  have "infinite_count (step g cd cv u dn st) + 1 = infinite_count st + 0"
    unfolding infinite_count_def step_distances [OF less]
    using sum_list_update [OF dn, of "\<lambda>e. case snd e of Finite d \<Rightarrow> 0 | Infinity \<Rightarrow> 1"
        "Finite (cd + edge_weight g cv u)"] Infinity
    by simp
  then show ?thesis by simp
next
  case (Finite e)
  with less have lt: "cd + edge_weight g cv u < e" by simp
  have "infinite_count (step g cd cv u dn st) + 0 = infinite_count st + 0"
    unfolding infinite_count_def step_distances [OF less]
    using sum_list_update [OF dn, of "\<lambda>e. case snd e of Finite d \<Rightarrow> 0 | Infinity \<Rightarrow> 1"
        "Finite (cd + edge_weight g cv u)"] Finite
    by simp
  moreover have "finite_total (step g cd cv u dn st) + nat e
                 = finite_total st + nat (cd + edge_weight g cv u)"
    unfolding finite_total_def step_distances [OF less]
    using sum_list_update [OF dn, of "\<lambda>e. case snd e of Finite d \<Rightarrow> nat d | Infinity \<Rightarrow> 0"
        "Finite (cd + edge_weight g cv u)"] Finite
    by simp
  moreover have "nat (cd + edge_weight g cv u) < nat e" using lt c by simp
  ultimately have "infinite_count (step g cd cv u dn st) = infinite_count st"
    and "finite_total (step g cd cv u dn st) < finite_total st"
    by linarith+
  then show ?thesis by simp
qed

lemma step_nonneg_state:
  assumes "nonneg_state st" "0 \<le> cd + edge_weight g cv u"
  shows "nonneg_state (step g cd cv u dn st)"
proof (cases "less_distance (cd + edge_weight g cv u) dn")
  case False
  with assms(1) show ?thesis by (simp add: step_unchanged)
next
  case True
  have "set (distances (step g cd cv u dn st))
        \<subseteq> insert (u, Finite (cd + edge_weight g cv u)) (set (distances st))"
    unfolding step_distances [OF True] by (rule set_update_subset)
  moreover have "set (priority_queue (step g cd cv u dn st))
        = insert (cd + edge_weight g cv u, u) (set (priority_queue st))"
    using True by (simp add: step_queue)
  ultimately show ?thesis
    using assms unfolding nonneg_state_def by auto
qed

lemma step_start_fixed:
  assumes "start_fixed s st" "0 \<le> cd + edge_weight g cv u"
    and dn: "map_of (distances st) u = Some dn"
  shows "start_fixed s (step g cd cv u dn st)"
proof (cases "less_distance (cd + edge_weight g cv u) dn")
  case False
  with assms(1) show ?thesis by (simp add: step_unchanged)
next
  case True
  have "u \<noteq> s"
  proof
    assume "u = s"
    with dn assms(1) have "dn = Finite 0" by (simp add: start_fixed_def)
    with True assms(2) show False by simp
  qed
  with assms(1) True show ?thesis
    by (simp add: start_fixed_def step_def update_conv')
qed

lemma relax_progress:
  assumes r: "relax g cd cv nbrs st = Inr st'"
    and n: "nonnegative g" and cd: "0 \<le> cd"
    and st: "nonneg_state st" "start_fixed s st"
  shows "nonneg_state st' \<and> start_fixed s st'
         \<and> (st' = st \<or> ((infinite_count st', finite_total st'),
                          (infinite_count st, finite_total st)) \<in> less_than <*lex*> less_than)"
proof -
  let ?L = "less_than <*lex*> less_than :: ((nat \<times> nat) \<times> (nat \<times> nat)) set"
  let ?mu = "\<lambda>x::'a locals. (infinite_count x, finite_total x)"
  let ?P = "\<lambda>(seen::'a list) x. nonneg_state x \<and> start_fixed s x
              \<and> (x = st \<or> (?mu x, ?mu st) \<in> ?L)"
  have tr: "trans ?L" by (intro trans_lex_prod trans_less_than)
  have "?P ([] @ nbrs) st'"
  proof (rule relax_rule [where P = ?P and A = UNIV, OF r])
    show "?P [] st" using st by simp
  next
    show "set nbrs \<subseteq> UNIV" by simp
  next
    fix seen u x dn
    assume p: "?P seen x" and dn: "map_of (distances x) u = Some dn"
    have c: "0 \<le> cd + edge_weight g cv u"
      using cd edge_weight_nonneg [OF n, of cv u] by simp
    have 1: "nonneg_state (step g cd cv u dn x)"
      using p c by (simp add: step_nonneg_state)
    have 2: "start_fixed s (step g cd cv u dn x)"
      using p c dn by (simp add: step_start_fixed)
    have 3: "step g cd cv u dn x = st \<or> (?mu (step g cd cv u dn x), ?mu st) \<in> ?L"
    proof (cases "less_distance (cd + edge_weight g cv u) dn")
      case False
      with p show ?thesis by (simp add: step_unchanged)
    next
      case True
      have d: "(?mu (step g cd cv u dn x), ?mu x) \<in> ?L"
        using dn True c by (rule step_decreases)
      from p have "x = st \<or> (?mu x, ?mu st) \<in> ?L" by simp
      then show ?thesis
      proof
        assume "x = st"
        with d show ?thesis by simp
      next
        assume "(?mu x, ?mu st) \<in> ?L"
        from transD [OF tr d this] show ?thesis by simp
      qed
    qed
    from 1 2 3 show "?P (seen @ [u]) (step g cd cv u dn x)" by simp
  qed
  then show ?thesis by simp
qed

lemma closed_neighbours:
  assumes "closed g" "map_of (adjacency_list g) v = Some nbrs"
  shows "set nbrs \<subseteq> vertices g"
proof -
  from assms(2) have "(v, nbrs) \<in> set (adjacency_list g)" by (rule map_of_SomeD)
  with assms(1) show ?thesis unfolding closed_def by force
qed

lemma snd_all_infinity:
  "e \<in> set (map (\<lambda>(vertex, adj). (vertex, Infinity)) al) \<Longrightarrow> snd e = Infinity"
  by (induction al) auto

lemma init_nonneg_state: "nonneg_state (dijkstra_init g s)"
  unfolding nonneg_state_def
proof (intro conjI ballI allI impI)
  fix e d
  assume e: "e \<in> set (distances (dijkstra_init g s))" and f: "snd e = Finite d"
  let ?al = "map (\<lambda>(vertex, adj). (vertex, Infinity)) (adjacency_list g)"
  from e have "e \<in> set (AList.update s (Finite 0) ?al)"
    by (simp add: dijkstra_init_def)
  then have "e \<in> insert (s, Finite 0) (set ?al)"
    by (rule subsetD [OF set_update_subset])
  then have "e = (s, Finite 0) \<or> e \<in> set ?al"
    by (simp only: insert_iff)
  then show "0 \<le> d"
  proof
    assume "e = (s, Finite 0)"
    with f show ?thesis by simp
  next
    assume "e \<in> set ?al"
    from snd_all_infinity [OF this] f show ?thesis by simp
  qed
next
  fix e
  assume "e \<in> set (priority_queue (dijkstra_init g s))"
  then show "0 \<le> fst e" by (simp add: queue_init)
qed

lemma map_of_all_none:
  "map_of (map (\<lambda>(vertex, adj). (vertex, None)) al) v = Some x \<Longrightarrow> x = None"
  by (induction al) (auto split: if_splits)

lemma map_fst_all_none:
  "map fst (map (\<lambda>(vertex, adj). (vertex, None)) al) = map fst al"
  by (induction al) auto

lemma predecessors_init:
  "predecessors (dijkstra_init g s) = map (\<lambda>(vertex, adj). (vertex, None)) (adjacency_list g)"
  by (simp add: dijkstra_init_def)

lemma keys_predecessors_init:
  "fst ` set (predecessors (dijkstra_init g s)) = vertices g"
proof -
  have "fst ` set (predecessors (dijkstra_init g s))
        = set (map fst (predecessors (dijkstra_init g s)))"
    by (simp only: set_map)
  also have "\<dots> = vertices g"
    by (simp only: predecessors_init map_fst_all_none vertices_def set_map)
  finally show ?thesis .
qed

lemma init_start_fixed:
  assumes "s \<in> vertices g"
  shows "start_fixed s (dijkstra_init g s)"
proof -
  from assms have "s \<in> fst ` set (predecessors (dijkstra_init g s))"
    by (simp only: keys_predecessors_init)
  then obtain x where x: "map_of (predecessors (dijkstra_init g s)) s = Some x"
    by (metis map_of_eq_None_iff not_None_eq)
  then have "x = None" unfolding predecessors_init by (rule map_of_all_none)
  with x show ?thesis by (simp add: start_fixed_def distances_init)
qed

lemma dijkstra_loop_total:
  assumes c: "closed g" and n: "nonnegative g" and s: "s \<in> vertices g"
  shows "\<exists>st. dijkstra_loop g (dijkstra_init g s) = Some (Inr st)
           \<and> (loop_inv g s st \<and> nonneg_state st \<and> start_fixed s st)
           \<and> priority_queue st = []"
proof (rule loop_total [OF wf_progress])
  show "loop_inv g s (dijkstra_init g s) \<and> nonneg_state (dijkstra_init g s)
        \<and> start_fixed s (dijkstra_init g s)"
    using s by (simp add: loop_inv_init init_nonneg_state init_start_fixed)
next
  fix st cd cv q
  assume j: "loop_inv g s st \<and> nonneg_state st \<and> start_fixed s st"
    and q: "priority_queue st = (cd, cv) # q"
  let ?st = "st\<lparr>priority_queue := q\<rparr>"
  from j q have cv: "cv \<in> vertices g" and cd: "0 \<le> cd"
    unfolding loop_inv_def nonneg_state_def by auto
  from cv obtain nbrs where nb: "map_of (adjacency_list g) cv = Some nbrs"
    unfolding vertices_def by (metis map_of_eq_None_iff not_None_eq)
  have "set nbrs \<subseteq> fst ` set (distances ?st)"
    using closed_neighbours [OF c nb] j by (simp add: loop_inv_def)
  from relax_total [OF this] obtain st1 where r: "relax g cd cv nbrs ?st = Inr st1" by blast
  have i: "loop_inv g s st1" using j q nb r loop_inv_step by blast
  have "nonneg_state ?st" "start_fixed s ?st"
    using j q by (simp_all add: nonneg_state_def start_fixed_def)
  from relax_progress [OF r n cd this]
  have p: "nonneg_state st1" "start_fixed s st1"
    "st1 = ?st \<or> ((infinite_count st1, finite_total st1),
                   (infinite_count ?st, finite_total ?st)) \<in> less_than <*lex*> less_than"
    by blast+
  have "(st1, st) \<in> progress"
    using p(3) q by (auto simp: progress_def infinite_count_def finite_total_def)
  with nb r i p(1,2)
  show "\<exists>nbrs st1. map_of (adjacency_list g) cv = Some nbrs
          \<and> relax g cd cv nbrs ?st = Inr st1
          \<and> (loop_inv g s st1 \<and> nonneg_state st1 \<and> start_fixed s st1) \<and> (st1, st) \<in> progress"
    by blast
qed

subsection \<open>Results of \<open>dijkstra\<close> and \<open>shortest_path\<close>\<close>

lemma dijkstra_result:
  assumes "closed g" "nonnegative g" "s \<in> vertices g"
  shows "\<exists>dists preds. dijkstra g s = Some (Inr (dists, preds))
           \<and> (\<forall>v \<in> vertices g. \<exists>x. map_of dists v = Some x \<and> is_shortest g s v x)
           \<and> map_of dists s = Some (Finite 0) \<and> map_of preds s = Some None"
proof -
  from dijkstra_loop_total [OF assms] obtain st where
    l: "dijkstra_loop g (dijkstra_init g s) = Some (Inr st)"
    and i: "loop_inv g s st" and f: "start_fixed s st" and q: "priority_queue st = []"
    by blast
  have "dijkstra g s = Some (Inr (distances st, predecessors st))"
    by (simp add: dijkstra_def l)
  moreover have "\<forall>v \<in> vertices g. \<exists>x. map_of (distances st) v = Some x \<and> is_shortest g s v x"
    using loop_inv_final [OF i q] by blast
  moreover have "map_of (distances st) s = Some (Finite 0)"
    "map_of (predecessors st) s = Some None"
    using f by (simp_all add: start_fixed_def)
  ultimately show ?thesis by blast
qed

lemma shortest_path_infinite:
  assumes "dijkstra g s = Some (Inr (dists, preds))" "map_of dists e = Some Infinity"
  shows "shortest_path g s e = Some (Inr (Message ''No path exists'', []))"
  using assms by (simp add: shortest_path_def)

lemma walk_back_none:
  "map_of preds v = Some None \<Longrightarrow> walk_back preds path v = Some (Inr (path, v))"
  by (subst walk_back.simps) simp

text \<open>
  Claim C1. On a graph whose neighbours are all keys and whose weights are not negative,
  \<open>dijkstra\<close> from a vertex of the graph returns, and the distance it gives to each vertex
  is the least weight of a path from the start to it (a missing weight entry counting as
  \<open>1\<close>), or \<open>Infinity\<close> when there is no path. On the undirected graph with the edges
  \<open>A - B\<close> of weight 1, \<open>B - C\<close> of weight 2 and \<open>A - C\<close> of weight 5, \<open>shortest_path\<close> from
  \<open>A\<close> to \<open>C\<close> returns the cost 3 and the path \<open>[A, B, C]\<close>.
\<close>

theorem dijkstra_shortest_distances:
  "(closed g \<and> nonnegative g \<and> start \<in> vertices g \<longrightarrow>
      (\<exists>dists preds. dijkstra g start = Some (Inr (dists, preds))
         \<and> (\<forall>v \<in> vertices g. \<exists>x. map_of dists v = Some x \<and> is_shortest g start v x)))
   \<and> shortest_path (foldl apply_operation (Graph False)
         [Add_edge ''A'' ''B'' 1, Add_edge ''B'' ''C'' 2, Add_edge ''A'' ''C'' 5]) ''A'' ''C''
       = Some (Inr (Cost 3, [''A'', ''B'', ''C'']))"
proof
  show "closed g \<and> nonnegative g \<and> start \<in> vertices g \<longrightarrow>
      (\<exists>dists preds. dijkstra g start = Some (Inr (dists, preds))
         \<and> (\<forall>v \<in> vertices g. \<exists>x. map_of dists v = Some x \<and> is_shortest g start v x))"
    using dijkstra_result [of g start] by blast
  show "shortest_path (foldl apply_operation (Graph False)
         [Add_edge ''A'' ''B'' 1, Add_edge ''B'' ''C'' 2, Add_edge ''A'' ''C'' 5]) ''A'' ''C''
       = Some (Inr (Cost 3, [''A'', ''B'', ''C'']))"
    by code_simp
qed

theorem dijkstra_shortest_distances_witness:
  "closed (foldl apply_operation (Graph False)
      [Add_edge ''A'' ''B'' 1, Add_edge ''B'' ''C'' 2, Add_edge ''A'' ''C'' 5])
   \<and> nonnegative (foldl apply_operation (Graph False)
      [Add_edge ''A'' ''B'' 1, Add_edge ''B'' ''C'' 2, Add_edge ''A'' ''C'' 5])
   \<and> ''A'' \<in> vertices (foldl apply_operation (Graph False)
      [Add_edge ''A'' ''B'' 1, Add_edge ''B'' ''C'' 2, Add_edge ''A'' ''C'' 5])
   \<and> (\<exists>dists preds.
        dijkstra (foldl apply_operation (Graph False)
          [Add_edge ''A'' ''B'' 1, Add_edge ''B'' ''C'' 2, Add_edge ''A'' ''C'' 5]) ''A''
          = Some (Inr (dists, preds))
        \<and> (\<forall>v \<in> vertices (foldl apply_operation (Graph False)
              [Add_edge ''A'' ''B'' 1, Add_edge ''B'' ''C'' 2, Add_edge ''A'' ''C'' 5]).
             \<exists>x. map_of dists v = Some x
               \<and> is_shortest (foldl apply_operation (Graph False)
                    [Add_edge ''A'' ''B'' 1, Add_edge ''B'' ''C'' 2, Add_edge ''A'' ''C'' 5])
                    ''A'' v x))"
proof -
  let ?g = "foldl apply_operation (Graph False)
      [Add_edge ''A'' ''B'' 1, Add_edge ''B'' ''C'' 2, Add_edge ''A'' ''C'' 5]"
  have c: "closed ?g" by code_simp
  have n: "nonnegative ?g" by code_simp
  have s: "''A'' \<in> vertices ?g" by code_simp
  from dijkstra_shortest_distances [of ?g "''A''"] c n s show ?thesis by blast
qed

text \<open>
  Claim C2, as the code has it. On a graph whose neighbours are all keys and whose weights
  are not negative, \<open>shortest_path\<close> from a vertex of the graph to itself returns the
  cost 0 and the empty path: the walk along the predecessors adds nothing, and the start
  is put in front of a non-empty path only.
\<close>

theorem shortest_path_to_itself:
  "closed g \<and> nonnegative g \<and> start \<in> vertices g \<longrightarrow>
     shortest_path g start start = Some (Inr (Cost 0, []))"
proof
  assume "closed g \<and> nonnegative g \<and> start \<in> vertices g"
  with dijkstra_result [of g start] obtain dists preds where
    d: "dijkstra g start = Some (Inr (dists, preds))"
    and 0: "map_of dists start = Some (Finite 0)" and p: "map_of preds start = Some None"
    by blast
  show "shortest_path g start start = Some (Inr (Cost 0, []))"
    by (simp add: shortest_path_def d 0 walk_back_none [OF p])
qed

theorem shortest_path_to_itself_witness:
  "closed (add_edge (Graph False) ''A'' ''B'' 1)
   \<and> nonnegative (add_edge (Graph False) ''A'' ''B'' 1)
   \<and> ''A'' \<in> vertices (add_edge (Graph False) ''A'' ''B'' 1)
   \<and> shortest_path (add_edge (Graph False) ''A'' ''B'' 1) ''A'' ''A'' = Some (Inr (Cost 0, []))"
proof -
  let ?g = "add_edge (Graph False) ''A'' ''B'' 1"
  have c: "closed ?g" by code_simp
  have n: "nonnegative ?g" by code_simp
  have s: "''A'' \<in> vertices ?g" by code_simp
  from shortest_path_to_itself [of ?g "''A''"] c n s show ?thesis by blast
qed

theorem shortest_path_to_itself_counterexample:
  "''A'' \<in> vertices (add_edge (Graph False) ''A'' ''B'' 1)
   \<and> shortest_path (add_edge (Graph False) ''A'' ''B'' 1) ''A'' ''A''
       = Some (Inr (Cost 0, []))"
  by code_simp

text \<open>
  Claim C3. When the distance of the end vertex is still infinite after \<open>dijkstra\<close>, and in
  particular when both vertices are in a graph without negative weights and no path leads
  from the start to the end, \<open>shortest_path\<close> returns the message
  \<open>"No path exists"\<close> in place of a cost, with the empty path.
\<close>

theorem no_path_result:
  "(dijkstra g start = Some (Inr (dists, preds)) \<and> map_of dists end_vertex = Some Infinity \<longrightarrow>
      shortest_path g start end_vertex = Some (Inr (Message ''No path exists'', [])))
   \<and> (closed g \<and> nonnegative g \<and> start \<in> vertices g \<and> end_vertex \<in> vertices g
        \<and> (\<forall>p. \<not> path_from_to g start p end_vertex) \<longrightarrow>
      shortest_path g start end_vertex = Some (Inr (Message ''No path exists'', [])))"
proof (intro conjI impI)
  assume "dijkstra g start = Some (Inr (dists, preds)) \<and> map_of dists end_vertex = Some Infinity"
  then show "shortest_path g start end_vertex = Some (Inr (Message ''No path exists'', []))"
    by (simp add: shortest_path_infinite)
next
  assume a: "closed g \<and> nonnegative g \<and> start \<in> vertices g \<and> end_vertex \<in> vertices g
        \<and> (\<forall>p. \<not> path_from_to g start p end_vertex)"
  with dijkstra_result [of g start] obtain ds ps x where
    d: "dijkstra g start = Some (Inr (ds, ps))"
    and x: "map_of ds end_vertex = Some x" "is_shortest g start end_vertex x"
    by blast
  have "x = Infinity"
  proof (cases x)
    case (Finite w)
    with x(2) a show ?thesis by (auto simp: is_shortest_def has_path_def)
  qed simp
  with d x(1) show "shortest_path g start end_vertex = Some (Inr (Message ''No path exists'', []))"
    by (simp add: shortest_path_infinite)
qed

theorem no_path_result_witness:
  "dijkstra (add_vertex (add_edge (Graph False) ''A'' ''B'' 1) ''C'') ''A''
     = Some (Inr ([(''A'', Finite 0), (''B'', Finite 1), (''C'', Infinity)],
                  [(''A'', None), (''B'', Some ''A''), (''C'', None)]))
   \<and> (\<forall>p. \<not> path_from_to (add_vertex (add_edge (Graph False) ''A'' ''B'' 1) ''C'') ''A'' p ''C'')
   \<and> shortest_path (add_vertex (add_edge (Graph False) ''A'' ''B'' 1) ''C'') ''A'' ''C''
       = Some (Inr (Message ''No path exists'', []))"
proof -
  let ?g = "add_vertex (add_edge (Graph False) ''A'' ''B'' 1) ''C''"
  let ?ds = "[(''A'', Finite 0), (''B'', Finite 1), (''C'', Infinity)]"
  let ?ps = "[(''A'', None), (''B'', Some ''A''), (''C'', None)]"
  have d: "dijkstra ?g ''A'' = Some (Inr (?ds, ?ps))" by code_simp
  have m: "map_of ?ds ''C'' = Some Infinity" by simp
  have c: "closed ?g" by code_simp
  have n: "nonnegative ?g" by code_simp
  have s: "''A'' \<in> vertices ?g" by code_simp
  have e: "''C'' \<in> vertices ?g" by code_simp
  from dijkstra_result [OF c n s] d e
  have "\<exists>x. map_of ?ds ''C'' = Some x \<and> is_shortest ?g ''A'' ''C'' x" by auto
  with m have u: "\<forall>p. \<not> path_from_to ?g ''A'' p ''C''" by (simp add: is_shortest_def)
  from no_path_result [of ?g "''A''" ?ds ?ps "''C''"] d m c n s e u
  show ?thesis by blast
qed

subsection \<open>Lookup failures\<close>

lemma relax_error: "relax g cd cv nbrs st = Inl e \<Longrightarrow> e = KeyError"
proof (induction nbrs arbitrary: st)
  case Nil
  then show ?case by simp
next
  case (Cons u rest)
  show ?case
  proof (cases "map_of (distances st) u")
    case None
    with Cons.prems show ?thesis by (simp add: relax_Cons del: relax.simps)
  next
    case (Some dn)
    with Cons.prems have "relax g cd cv rest (step g cd cv u dn st) = Inl e"
      by (simp add: relax_Cons del: relax.simps)
    then show ?thesis by (rule Cons.IH)
  qed
qed

lemma dijkstra_loop_error:
  assumes "dijkstra_loop g st = Some (Inl e)"
  shows "e = KeyError"
proof -
  define P where "P = (\<lambda>(g' :: 'a graph) (st :: 'a locals) (r :: error + 'a locals).
    \<forall>e. r = Inl e \<longrightarrow> e = KeyError)"
  have "P g st (Inl e)"
  proof (rule dijkstra_loop.raw_induct [OF _ assms])
    fix loop g0 st0 and r0 :: "error + 'a locals"
    assume IH0: "\<And>a b y. loop a b = Some y \<Longrightarrow> P a b y"
      and eq: "(case priority_queue st0 of
                  [] \<Rightarrow> Some (Inr st0)
                | (current_distance, current_vertex) # q \<Rightarrow>
                    (case map_of (adjacency_list g0) current_vertex of
                       None \<Rightarrow> Some (Inl KeyError)
                     | Some neighbors \<Rightarrow>
                         (case relax g0 current_distance current_vertex neighbors
                                 (st0\<lparr>priority_queue := q\<rparr>) of
                            Inl e \<Rightarrow> Some (Inl e)
                          | Inr st' \<Rightarrow> loop g0 st'))) = Some r0"
    note IH = IH0 [unfolded P_def]
    show "P g0 st0 r0"
      unfolding P_def
    proof (intro allI impI)
      fix e0
      assume r0: "r0 = Inl e0"
      show "e0 = KeyError"
      proof (cases "priority_queue st0")
        case Nil
        with eq r0 show ?thesis by simp
      next
        case (Cons x q)
        obtain cd cv where x: "x = (cd, cv)" by (cases x)
        show ?thesis
        proof (cases "map_of (adjacency_list g0) cv")
          case None
          with eq Cons x r0 show ?thesis by simp
        next
          case (Some nbrs)
          show ?thesis
          proof (cases "relax g0 cd cv nbrs (st0\<lparr>priority_queue := q\<rparr>)")
            case (Inl e1)
            with eq Cons x Some r0 have "e0 = e1" by simp
            with relax_error [OF Inl] show ?thesis by simp
          next
            case (Inr st1)
            with eq Cons x Some have "loop g0 st1 = Some r0" by simp
            from IH [OF this] r0 show ?thesis by blast
          qed
        qed
      qed
    qed
  qed
  then show ?thesis by (simp add: P_def)
qed

lemma relax_keys:
  assumes "relax g cd cv nbrs st = Inr st'"
  shows "fst ` set (distances st') = fst ` set (distances st)"
proof -
  have "fst ` set (distances st') = fst ` set (distances st)"
    by (rule relax_rule [where P = "\<lambda>seen x. fst ` set (distances x) = fst ` set (distances st)"
          and A = UNIV and seen = "[]", OF assms])
       (simp_all add: step_keys)
  then show ?thesis .
qed

lemma dijkstra_absent_start:
  assumes "s \<notin> vertices g"
  shows "dijkstra g s = Some (Inl KeyError)"
proof -
  from assms have "map_of (adjacency_list g) s = None"
    by (simp add: vertices_def map_of_eq_None_iff)
  then have "dijkstra_loop g (dijkstra_init g s) = Some (Inl KeyError)"
    by (subst dijkstra_loop.simps) (simp add: queue_init)
  then show ?thesis by (simp add: dijkstra_def)
qed

lemma dijkstra_error:
  "dijkstra g s = Some (Inl e) \<Longrightarrow> e = KeyError"
  by (auto simp: dijkstra_def dest: dijkstra_loop_error split: option.splits sum.splits)

lemma dijkstra_Inr:
  assumes "dijkstra g s = Some (Inr (dists, preds))"
  shows "\<exists>st. dijkstra_loop g (dijkstra_init g s) = Some (Inr st)
           \<and> dists = distances st \<and> preds = predecessors st"
proof (cases "dijkstra_loop g (dijkstra_init g s)")
  case None
  with assms show ?thesis by (simp add: dijkstra_def)
next
  case (Some r)
  show ?thesis
  proof (cases r)
    case (Inl e)
    with Some assms show ?thesis by (simp add: dijkstra_def)
  next
    case (Inr st)
    with Some assms show ?thesis by (simp add: dijkstra_def)
  qed
qed

lemma dijkstra_keys:
  assumes "dijkstra g s = Some (Inr (dists, preds))"
  shows "fst ` set dists = vertices g"
proof -
  from dijkstra_Inr [OF assms] obtain st where
    l: "dijkstra_loop g (dijkstra_init g s) = Some (Inr st)" and d: "dists = distances st"
    by blast
  have s: "s \<in> vertices g"
  proof (rule ccontr)
    assume "s \<notin> vertices g"
    from dijkstra_absent_start [OF this] assms show False by simp
  qed
  have "fst ` set (distances st) = vertices g \<and> priority_queue st = []"
  proof (rule loop_partial [OF l, where J = "\<lambda>x. fst ` set (distances x) = vertices g"])
    show "fst ` set (distances (dijkstra_init g s)) = vertices g"
      using s by (simp add: keys_init insert_absorb)
  next
    fix st0 :: "'a locals" and cd cv q nbrs st1
    assume k: "fst ` set (distances st0) = vertices g"
      and r: "relax g cd cv nbrs (st0\<lparr>priority_queue := q\<rparr>) = Inr st1"
    from relax_keys [OF r] have "fst ` set (distances st1) = fst ` set (distances st0)"
      by simp
    with k show "fst ` set (distances st1) = vertices g" by simp
  qed
  with d show ?thesis by simp
qed

lemma shortest_path_absent_end:
  assumes e: "e \<notin> vertices g" and t: "dijkstra g s \<noteq> None"
  shows "shortest_path g s e = Some (Inl KeyError)"
proof -
  from t obtain r where r: "dijkstra g s = Some r" by blast
  show ?thesis
  proof (cases r)
    case (Inl err)
    with r dijkstra_error [of g s err] show ?thesis by (simp add: shortest_path_def)
  next
    case (Inr p)
    obtain dists preds where p: "p = (dists, preds)" by (cases p)
    from dijkstra_keys r Inr p have "fst ` set dists = vertices g" by blast
    with e have "map_of dists e = None" by (simp add: map_of_eq_None_iff)
    with r Inr p show ?thesis by (simp add: shortest_path_def)
  qed
qed

subsection \<open>A negative cycle\<close>

lemma negative_loop_step:
  assumes "priority_queue st = [(d, ''A'')]" "distances st = [(''A'', Finite d)]"
  shows "\<exists>st1. relax (add_edge (Graph False) ''A'' ''A'' (- 1)) d ''A'' [''A'', ''A'']
                  (st\<lparr>priority_queue := []\<rparr>) = Inr st1
           \<and> priority_queue st1 = [(d - 1, ''A'')] \<and> distances st1 = [(''A'', Finite (d - 1))]"
proof -
  have w: "edge_weight (add_edge (Graph False) ''A'' ''A'' (- 1)) ''A'' ''A'' = - 1"
    by code_simp
  show ?thesis
    using assms by (simp add: w heappush_def Let_def)
qed

lemma negative_loop_diverges:
  assumes "dijkstra_loop (add_edge (Graph False) ''A'' ''A'' (- 1)) st = Some r"
  shows "\<not> (\<exists>d. priority_queue st = [(d, ''A'')] \<and> distances st = [(''A'', Finite d)])"
proof -
  let ?g = "add_edge (Graph False) ''A'' ''A'' (- 1) :: string graph"
  define P where "P = (\<lambda>(g' :: string graph) (st :: string locals) (r :: error + string locals).
    g' = ?g \<longrightarrow> \<not> (\<exists>d. priority_queue st = [(d, ''A'')] \<and> distances st = [(''A'', Finite d)]))"
  have a: "map_of (adjacency_list ?g) ''A'' = Some [''A'', ''A'']" by code_simp
  have "P ?g st r"
  proof (rule dijkstra_loop.raw_induct [OF _ assms])
    fix loop g0 st0 and r0 :: "error + string locals"
    assume IH0: "\<And>a b y. loop a b = Some y \<Longrightarrow> P a b y"
      and eq: "(case priority_queue st0 of
                  [] \<Rightarrow> Some (Inr st0)
                | (current_distance, current_vertex) # q \<Rightarrow>
                    (case map_of (adjacency_list g0) current_vertex of
                       None \<Rightarrow> Some (Inl KeyError)
                     | Some neighbors \<Rightarrow>
                         (case relax g0 current_distance current_vertex neighbors
                                 (st0\<lparr>priority_queue := q\<rparr>) of
                            Inl e \<Rightarrow> Some (Inl e)
                          | Inr st' \<Rightarrow> loop g0 st'))) = Some r0"
    note IH = IH0 [unfolded P_def]
    show "P g0 st0 r0"
      unfolding P_def
    proof (intro impI notI)
      assume g0: "g0 = ?g"
        and "\<exists>d. priority_queue st0 = [(d, ''A'')] \<and> distances st0 = [(''A'', Finite d)]"
      then obtain d where d: "priority_queue st0 = [(d, ''A'')]" "distances st0 = [(''A'', Finite d)]"
        by blast
      from negative_loop_step [OF d] obtain st1 where
        r: "relax ?g d ''A'' [''A'', ''A''] (st0\<lparr>priority_queue := []\<rparr>) = Inr st1"
        and i: "priority_queue st1 = [(d - 1, ''A'')]" "distances st1 = [(''A'', Finite (d - 1))]"
        by blast
      from eq have "loop ?g st1 = Some r0"
        unfolding g0 d(1) by (simp only: list.case prod.case a option.case r sum.case)
      from IH [OF this] i show False by blast
    qed
  qed
  then show ?thesis by (simp add: P_def)
qed

lemma negative_loop_dijkstra:
  "dijkstra (add_edge (Graph False) ''A'' ''A'' (- 1)) ''A'' = None"
proof -
  let ?g = "add_edge (Graph False) ''A'' ''A'' (- 1) :: string graph"
  have q: "priority_queue (dijkstra_init ?g ''A'') = [(0, ''A'')]" by (rule queue_init)
  have d: "distances (dijkstra_init ?g ''A'') = [(''A'', Finite 0)]" by code_simp
  have "dijkstra_loop ?g (dijkstra_init ?g ''A'') = None"
  proof (cases "dijkstra_loop ?g (dijkstra_init ?g ''A'')")
    case (Some r)
    from negative_loop_diverges [OF Some] q d show ?thesis by blast
  qed simp
  then show ?thesis by (simp add: dijkstra_def)
qed

text \<open>
  Claim C9, as the code has it. With a start vertex that is not a key of the adjacency
  dictionary, \<open>dijkstra\<close> and \<open>shortest_path\<close> fail with \<open>KeyError\<close> on every graph. With
  an end vertex that is not a key, \<open>shortest_path\<close> fails with \<open>KeyError\<close> whenever
  \<open>dijkstra\<close> returns or fails, and it does so on every graph whose neighbours are all
  keys and whose weights are not negative.
\<close>

theorem unknown_vertex_fails:
  "(start \<notin> vertices g \<longrightarrow>
      dijkstra g start = Some (Inl KeyError)
      \<and> shortest_path g start end_vertex = Some (Inl KeyError))
   \<and> (end_vertex \<notin> vertices g \<and> dijkstra g start \<noteq> None \<longrightarrow>
        shortest_path g start end_vertex = Some (Inl KeyError))
   \<and> (closed g \<and> nonnegative g \<and> start \<in> vertices g \<longrightarrow> dijkstra g start \<noteq> None)"
proof (intro conjI impI)
  assume "start \<notin> vertices g"
  then show "dijkstra g start = Some (Inl KeyError)" by (rule dijkstra_absent_start)
next
  assume "start \<notin> vertices g"
  then show "shortest_path g start end_vertex = Some (Inl KeyError)"
    by (simp add: shortest_path_def dijkstra_absent_start)
next
  assume "end_vertex \<notin> vertices g \<and> dijkstra g start \<noteq> None"
  then show "shortest_path g start end_vertex = Some (Inl KeyError)"
    by (simp add: shortest_path_absent_end)
next
  assume "closed g \<and> nonnegative g \<and> start \<in> vertices g"
  with dijkstra_result [of g start] show "dijkstra g start \<noteq> None" by auto
qed

theorem unknown_vertex_fails_witness:
  "''Z'' \<notin> vertices (add_edge (Graph False) ''A'' ''B'' 1)
   \<and> closed (add_edge (Graph False) ''A'' ''B'' 1)
   \<and> nonnegative (add_edge (Graph False) ''A'' ''B'' 1)
   \<and> ''A'' \<in> vertices (add_edge (Graph False) ''A'' ''B'' 1)
   \<and> dijkstra (add_edge (Graph False) ''A'' ''B'' 1) ''A'' \<noteq> None
   \<and> dijkstra (add_edge (Graph False) ''A'' ''B'' 1) ''Z'' = Some (Inl KeyError)
   \<and> shortest_path (add_edge (Graph False) ''A'' ''B'' 1) ''Z'' ''A'' = Some (Inl KeyError)
   \<and> shortest_path (add_edge (Graph False) ''A'' ''B'' 1) ''A'' ''Z'' = Some (Inl KeyError)"
proof -
  let ?g = "add_edge (Graph False) ''A'' ''B'' 1"
  have z: "''Z'' \<notin> vertices ?g" by code_simp
  have c: "closed ?g" by code_simp
  have n: "nonnegative ?g" by code_simp
  have s: "''A'' \<in> vertices ?g" by code_simp
  from unknown_vertex_fails [of "''Z''" ?g "''A''"] z
  have 1: "dijkstra ?g ''Z'' = Some (Inl KeyError)"
    "shortest_path ?g ''Z'' ''A'' = Some (Inl KeyError)" by blast+
  from unknown_vertex_fails [of "''A''" ?g "''Z''"] c n s
  have 2: "dijkstra ?g ''A'' \<noteq> None" by blast
  with unknown_vertex_fails [of "''A''" ?g "''Z''"] z
  have 3: "shortest_path ?g ''A'' ''Z'' = Some (Inl KeyError)" by blast
  from z c n s 1 2 3 show ?thesis by blast
qed

theorem unknown_vertex_fails_counterexample:
  "''A'' \<in> vertices (add_edge (Graph False) ''A'' ''A'' (- 1))
   \<and> ''Z'' \<notin> vertices (add_edge (Graph False) ''A'' ''A'' (- 1))
   \<and> shortest_path (add_edge (Graph False) ''A'' ''A'' (- 1)) ''A'' ''Z'' = None"
proof -
  have "''A'' \<in> vertices (add_edge (Graph False) ''A'' ''A'' (- 1))" by code_simp
  moreover have "''Z'' \<notin> vertices (add_edge (Graph False) ''A'' ''A'' (- 1))" by code_simp
  moreover have "shortest_path (add_edge (Graph False) ''A'' ''A'' (- 1)) ''A'' ''Z'' = None"
    by (simp add: shortest_path_def negative_loop_dijkstra)
  ultimately show ?thesis by blast
qed

end
